theory Spec2Isabelle
  imports Complex_Main "HOL-Library.Product_Lexorder" "HOL-Library.List_Lexorder"
    "HOL-Library.Char_ord"
begin

section \<open>Text primitives of the loader\<close>

text \<open>
  Python strings are sequences of Unicode code points. A \<^typ>\<open>char\<close> is read here as
  one code point below 256 (Latin-1), so the three string methods the loader calls
  (\<open>str.strip\<close>, \<open>str.lower\<close>, \<open>str.isdigit\<close>) are modelled with the Unicode
  classes of exactly those code points. Text with code points from 256 on is outside the
  model.
\<close>

definition isspace :: "char \<Rightarrow> bool" where
  \<comment> \<open>\<open>str.isspace\<close> on one code point: TAB, LF, VT, FF, CR, FS, GS, RS, US, SPACE, NEL, NBSP.\<close>
  "isspace c = (let n = (of_char c :: nat) in
     (9 \<le> n \<and> n \<le> 13) \<or> (28 \<le> n \<and> n \<le> 32) \<or> n = 133 \<or> n = 160)"

definition strip :: "string \<Rightarrow> string" where
  \<comment> \<open>\<open>x.strip()\<close>: leading and trailing whitespace removed.\<close>
  "strip s = rev (dropWhile isspace (rev (dropWhile isspace s)))"

definition lower_char :: "char \<Rightarrow> char" where
  \<comment> \<open>Upper-case letters of Latin-1 (A-Z, and 192-222 without the multiplication sign 215).\<close>
  "lower_char c = (let n = (of_char c :: nat) in
     if (65 \<le> n \<and> n \<le> 90) \<or> (192 \<le> n \<and> n \<le> 222 \<and> n \<noteq> 215)
     then char_of (n + 32) else c)"

definition lower :: "string \<Rightarrow> string" where
  \<comment> \<open>\<open>x.lower()\<close>\<close>
  "lower s = map lower_char s"

definition isdigit_char :: "char \<Rightarrow> bool" where
  \<comment> \<open>Digits 0-9 and the superscript digits 178, 179, 185, which \<open>str.isdigit\<close> accepts.\<close>
  "isdigit_char c = (let n = (of_char c :: nat) in
     (48 \<le> n \<and> n \<le> 57) \<or> n = 178 \<or> n = 179 \<or> n = 185)"

definition isdigit :: "string \<Rightarrow> bool" where
  \<comment> \<open>\<open>s.isdigit()\<close>: at least one character, and all of them digits.\<close>
  "isdigit s = (s \<noteq> [] \<and> list_all isdigit_char s)"

fun str_nat :: "nat \<Rightarrow> string" where
  \<comment> \<open>\<open>str(i)\<close> of a non-negative integer, in decimal.\<close>
  "str_nat n = (if n < 10 then [char_of (48 + n)]
                else str_nat (n div 10) @ [char_of (48 + n mod 10)])"

declare str_nat.simps [simp del]

section \<open>The parsed table\<close>

text \<open>
  \<open>pandas.read_csv\<close> is a library call. Its result is taken as it comes back: a column
  index and the rows of cells. A column index is either integer-typed (dtype \<open>int64\<close>,
  what the parser gives when it is told there is no header) or a list of text labels
  (what it gives when the labels are read from the file).
\<close>

datatype col_index = Int64Index "int list" | ObjectIndex "string list"

datatype cell = NaN | Val string
  \<comment> \<open>\<open>NaN\<close>: a missing cell. \<open>Val s\<close>: a present cell whose \<open>str\<close> is \<open>s\<close>.\<close>

record dataframe =
  columns :: col_index
  vals :: "cell list list"

datatype file_arg = FileBytes string | FilePath string
  \<comment> \<open>The argument \<open>file\<close>: uploaded bytes, or a path.\<close>

datatype csv_input = BytesIO string | PathName string
  \<comment> \<open>What is handed to \<open>read_csv\<close>: an in-memory buffer over the bytes, or the path itself.\<close>

type_synonym exn = string
  \<comment> \<open>A raised exception, by the name of its class.\<close>

type_synonym read_csv = "csv_input \<Rightarrow> nat option \<Rightarrow> exn + dataframe"
  \<comment> \<open>\<open>read_csv(input, header=..., on_bad_lines="skip", encoding_errors="ignore")\<close>;
      \<open>Inl e\<close> is an exception \<open>e\<close> raised by the parser.\<close>

section \<open>Loading transactions from a CSV source\<close>

definition header_arg :: "bool option \<Rightarrow> nat option" where
  \<comment> \<open>\<open>header=0 if has_header else None\<close>: \<open>None\<close> and \<open>False\<close> are both falsy.\<close>
  "header_arg has_header = (if has_header = Some True then Some 0 else None)"

definition csv_input_of :: "file_arg \<Rightarrow> csv_input" where
  \<comment> \<open>The \<open>isinstance(file, (bytes, bytearray))\<close> branch.\<close>
  "csv_input_of file = (case file of FileBytes b \<Rightarrow> BytesIO b | FilePath p \<Rightarrow> PathName p)"

definition ncols :: "dataframe \<Rightarrow> nat" where
  \<comment> \<open>\<open>df.shape[1]\<close>\<close>
  "ncols df = (case columns df of Int64Index ks \<Rightarrow> length ks | ObjectIndex ls \<Rightarrow> length ls)"

definition looks_headerless :: "col_index \<Rightarrow> bool" where
  \<comment> \<open>\<open>df.columns.dtype == "int64" or any(str(c).isdigit() for c in df.columns)\<close>\<close>
  "looks_headerless ci = (case ci of Int64Index ks \<Rightarrow> True
                          | ObjectIndex ls \<Rightarrow> list_ex isdigit ls)"

definition generic_names :: "nat \<Rightarrow> string list" where
  \<comment> \<open>\<open>[f"Item_{i}" for i in range(1, n + 1)]\<close>\<close>
  "generic_names n = map (\<lambda>i. ''Item_'' @ str_nat i) [1 ..< n + 1]"

definition rename_columns :: "dataframe \<Rightarrow> dataframe" where
  "rename_columns df =
     (if looks_headerless (columns df)
      then df\<lparr>columns := ObjectIndex (generic_names (ncols df))\<rparr>
      else df)"

definition cell_text :: "cell \<Rightarrow> string" where
  \<comment> \<open>\<open>df.fillna("").astype(str)\<close> on one cell.\<close>
  "cell_text c = (case c of NaN \<Rightarrow> [] | Val s \<Rightarrow> s)"

definition keep_cell :: "string \<Rightarrow> bool" where
  \<comment> \<open>\<open>x and x.strip() and x.lower() != "nan"\<close>\<close>
  "keep_cell x = (x \<noteq> [] \<and> strip x \<noteq> [] \<and> lower x \<noteq> ''nan'')"

definition clean_row :: "string list \<Rightarrow> string list" where
  \<comment> \<open>\<open>[x.strip() for x in row if ...]\<close>\<close>
  "clean_row row = map strip (filter keep_cell row)"

definition transactions_of :: "dataframe \<Rightarrow> string list list" where
  "transactions_of df =
     (let values = map (map cell_text) (vals df);
          txns = map clean_row values
      in filter (\<lambda>row. length row > 0) txns)"

definition load_transactions_from_csv ::
  "read_csv \<Rightarrow> file_arg \<Rightarrow> bool option \<Rightarrow> exn + (dataframe \<times> string list list)" where
  "load_transactions_from_csv read_csv file has_header =
     (case read_csv (csv_input_of file) (header_arg has_header) of
        Inl e \<Rightarrow> Inl e
      | Inr df \<Rightarrow> (let df' = rename_columns df in Inr (df', transactions_of df')))"

definition claimed_row_items :: "string list \<Rightarrow> string list" where
  \<comment> \<open>The row cleaning as the specification words it: the cells that are non-empty after
      stripping and are not the text \<open>nan\<close>, stripped, in order. Kept beside \<open>clean_row\<close>
      to compare the two.\<close>
  "claimed_row_items row = map strip (filter (\<lambda>x. strip x \<noteq> [] \<and> x \<noteq> ''nan'') row)"

section \<open>One-hot encoding\<close>

record onehot =
  oh_columns :: "string list"
  oh_rows :: "bool list list"

text \<open>
  Modelled from the spec: \<open>TransactionEncoder.fit\<close> of the mlxtend library, which is not part
  of the sources. The specification's encoder computes the item universe as the union of
  all transaction contents in a canonical order; the lexicographic one is taken here.
\<close>

definition te_fit :: "string list list \<Rightarrow> string list" where
  "te_fit transactions = sort (remdups (concat transactions))"

text \<open>
  Modelled from the spec: \<open>TransactionEncoder.transform\<close> of the mlxtend library, which is
  not part of the sources. One boolean row per transaction; the cell of item \<open>i\<close> in the
  row of transaction \<open>t\<close> is true exactly when \<open>i\<close> appears in \<open>t\<close>.
\<close>

definition te_transform :: "string list \<Rightarrow> string list list \<Rightarrow> bool list list" where
  "te_transform cols transactions = map (\<lambda>t. map (\<lambda>c. c \<in> set t) cols) transactions"

definition to_one_hot_dataframe :: "string list list \<Rightarrow> onehot" where
  \<comment> \<open>\<open>arr = te.fit(transactions).transform(transactions)\<close>, then the frame over \<open>te.columns_\<close>.\<close>
  "to_one_hot_dataframe transactions =
     (let cols = te_fit transactions;
          arr = te_transform cols transactions
      in \<lparr>oh_columns = cols, oh_rows = arr\<rparr>)"

definition row_members :: "string list \<Rightarrow> bool list \<Rightarrow> string list" where
  \<comment> \<open>The column labels whose cell in the row is true.\<close>
  "row_members cols row = map fst (filter snd (zip cols row))"

section \<open>Mining itemsets and rules\<close>

text \<open>
  Supports, confidences and lifts are floating-point numbers in the program. They are
  modelled as rationals: only their order is used below, and no rounding is modelled.
\<close>

record freq_itemset =
  fi_support :: rat
  fi_itemsets :: "string list"

record rule =
  antecedents :: "string list"
  consequents :: "string list"
  support :: rat
  confidence :: rat
  lift :: rat
  leverage :: rat
  conviction :: "rat option"

type_synonym fpgrowth = "onehot \<Rightarrow> rat \<Rightarrow> exn + freq_itemset list"
  \<comment> \<open>\<open>fpgrowth(df_onehot, min_support=min_support, use_colnames=True)\<close>, a library call.\<close>

type_synonym association_rules = "freq_itemset list \<Rightarrow> rat \<Rightarrow> exn + rule list"
  \<comment> \<open>\<open>association_rules(itemsets, metric="confidence", min_threshold=min_conf)\<close>,
      a library call.\<close>

definition sort_key_of :: "rule \<Rightarrow> rat \<times> rat \<times> rat" where
  \<comment> \<open>The columns \<open>["confidence", "support", "lift"]\<close>, each descending.\<close>
  "sort_key_of r = (- confidence r, - support r, - lift r)"

definition sort_values :: "rule list \<Rightarrow> rule list" where
  \<comment> \<open>\<open>rules.sort_values(["confidence", "support", "lift"], ascending=[False, False, False])\<close>:
      pandas sorts on several columns lexicographically, keeping tied rows in their order.\<close>
  "sort_values rules = sort_key sort_key_of rules"

definition mine_itemsets_and_rules ::
  "fpgrowth \<Rightarrow> association_rules \<Rightarrow> onehot \<Rightarrow> rat \<Rightarrow> rat
     \<Rightarrow> exn + (freq_itemset list \<times> rule list)" where
  "mine_itemsets_and_rules fpgrowth association_rules df_onehot min_support min_conf =
     (case fpgrowth df_onehot min_support of
        Inl e \<Rightarrow> Inl e
      | Inr itemsets \<Rightarrow>
          if itemsets = [] then Inr (itemsets, [])
          else (case association_rules itemsets min_conf of
                  Inl e \<Rightarrow> Inl e
                | Inr rules \<Rightarrow> Inr (itemsets, sort_values rules)))"

section \<open>Support and rule generation\<close>

definition contains_all :: "string list \<Rightarrow> string list \<Rightarrow> bool" where
  \<comment> \<open>The transaction \<open>t\<close> contains every item of the itemset \<open>s\<close>.\<close>
  "contains_all t s = list_all (\<lambda>x. x \<in> set t) s"

text \<open>
  Modelled from the spec: the support of an itemset, which the program leaves to the
  mlxtend library: the count of transactions containing all items of the set, divided by
  the total transaction count.
\<close>

definition supp :: "string list list \<Rightarrow> string list \<Rightarrow> rat" where
  "supp D s = of_nat (length (filter (\<lambda>t. contains_all t s) D)) / of_nat (length D)"

definition same_items :: "string list \<Rightarrow> string list \<Rightarrow> bool" where
  \<comment> \<open>Equality of two itemsets (frozensets), each given as a list of its items.\<close>
  "same_items a b = (contains_all a b \<and> contains_all b a)"

definition supp_lookup :: "freq_itemset list \<Rightarrow> string list \<Rightarrow> exn + rat" where
  \<comment> \<open>Modelled from the spec: the support recorded for an itemset in the table of frequent itemsets.\<close>
  "supp_lookup table s =
     (case find (\<lambda>row. same_items (fi_itemsets row) s) table of
        None \<Rightarrow> Inl ''KeyError''
      | Some row \<Rightarrow> Inr (fi_support row))"

text \<open>
  Modelled from the spec: the rule generator (\<open>association_rules\<close> of the mlxtend library,
  which is not part of the sources). For every frequent itemset of size at least two,
  every non-empty proper subset is a candidate antecedent, the consequent is the rest of
  the itemset; the metrics are those of the specification's data model; a candidate is
  retained only if its confidence reaches the minimum confidence.
\<close>

definition antecedent_candidates :: "string list \<Rightarrow> string list list" where
  "antecedent_candidates s = filter (\<lambda>a. a \<noteq> [] \<and> length a < length s) (subseqs s)"

definition candidate_rule :: "freq_itemset list \<Rightarrow> freq_itemset \<Rightarrow> string list \<Rightarrow> exn + rule" where
  \<comment> \<open>Modelled from the spec: the rule of one antecedent, with the metrics of the data model;
      a support missing from the table or equal to zero is an exception.\<close>
  "candidate_rule table row a =
     (let c = filter (\<lambda>x. x \<notin> set a) (fi_itemsets row);
          sAC = fi_support row
      in case supp_lookup table a of
           Inl e \<Rightarrow> Inl e
         | Inr sA \<Rightarrow>
             (case supp_lookup table c of
                Inl e \<Rightarrow> Inl e
              | Inr sC \<Rightarrow>
                  if sA = 0 \<or> sC = 0 then Inl ''ZeroDivisionError''
                  else (let conf = sAC / sA
                        in Inr \<lparr>antecedents = a, consequents = c, support = sAC,
                                confidence = conf, lift = conf / sC,
                                leverage = sAC - sA * sC,
                                conviction = (if conf = 1 then None
                                              else Some ((1 - sC) / (1 - conf)))\<rparr>)))"

fun collect :: "(exn + 'a) list \<Rightarrow> exn + 'a list" where
  \<comment> \<open>The results of a sequence of computations; the first exception ends it.\<close>
  "collect [] = Inr []"
| "collect (Inl e # _) = Inl e"
| "collect (Inr x # rest) = (case collect rest of Inl e \<Rightarrow> Inl e | Inr xs \<Rightarrow> Inr (x # xs))"

definition generate_rules :: "freq_itemset list \<Rightarrow> rat \<Rightarrow> exn + rule list" where
  \<comment> \<open>Modelled from the spec: all candidates of all itemsets of size at least two, filtered
      by the minimum confidence.\<close>
  "generate_rules table min_confidence =
     (case collect (concat (map (\<lambda>row.
              if 2 \<le> length (fi_itemsets row)
              then map (candidate_rule table row) (antecedent_candidates (fi_itemsets row))
              else []) table)) of
        Inl e \<Rightarrow> Inl e
      | Inr cands \<Rightarrow> Inr (filter (\<lambda>r. min_confidence \<le> confidence r) cands))"

section \<open>The frequent-itemset miner\<close>

text \<open>
  Modelled from the spec: the miner (\<open>fpgrowth\<close> of the mlxtend library, which is not part
  of the sources), after the steps of the specification's FP-Growth design. (1) The
  per-item support is computed from the matrix and the items below the minimum support are
  discarded. (2) The remaining items are ordered by descending support, ties by label.
  (3) Each transaction, restricted to the frequent items and reordered, is inserted into
  the tree as a path from the root, sharing prefixes and adding to the counts of the
  shared nodes. (4) The items are visited in ascending support order; for each, the
  conditional pattern base (the prefix paths ending at the item, each with the count of
  the item's node) is extracted, the conditional tree is built from it, and the mining
  recurses, emitting the item joined with the itemsets of its conditional tree whenever the
  count reaches the minimum support. The single-path shortcut of step (5) is an
  optimisation and is left out. Supports are exact rationals; a matrix without rows is
  rejected.
\<close>

datatype fptree = Node string nat "fptree list"
  \<comment> \<open>A node: item label, occurrence count, children. A tree is the list of the root's children.\<close>

fun insert_path :: "string list \<Rightarrow> nat \<Rightarrow> fptree list \<Rightarrow> fptree list" where
  \<comment> \<open>Modelled from the spec: step (3), one path inserted with weight \<open>c\<close>.\<close>
  "insert_path [] c forest = forest"
| "insert_path (x # xs) c [] = [Node x c (insert_path xs c [])]"
| "insert_path (x # xs) c (Node y n ch # forest) =
     (if x = y then Node y (n + c) (insert_path xs c ch) # forest
      else Node y n ch # insert_path (x # xs) c forest)"

definition build :: "(string list \<times> nat) list \<Rightarrow> fptree list" where
  \<comment> \<open>Modelled from the spec: step (3), the tree of a list of weighted paths.\<close>
  "build paths = fold (\<lambda>(t, c) forest. insert_path t c forest) paths []"

fun cond_paths :: "string list \<Rightarrow> string \<Rightarrow> fptree list \<Rightarrow> (string list \<times> nat) list" where
  \<comment> \<open>Modelled from the spec: step (4), the conditional pattern base of item \<open>x\<close>;
      \<open>pre\<close> is the path from the root to the forest.\<close>
  "cond_paths pre x [] = []"
| "cond_paths pre x (Node y n ch # forest) =
     (if y = x then [(pre, n)] else cond_paths (pre @ [y]) x ch) @ cond_paths pre x forest"

definition item_count :: "string \<Rightarrow> fptree list \<Rightarrow> nat" where
  \<comment> \<open>Modelled from the spec: the count of an item in a tree, the sum over its nodes.\<close>
  "item_count x forest = sum_list (map snd (cond_paths [] x forest))"

definition frequent :: "nat \<Rightarrow> rat \<Rightarrow> nat \<Rightarrow> bool" where
  \<comment> \<open>Modelled from the spec: a count out of \<open>N\<close> transactions meets the minimum support.\<close>
  "frequent N min_support c = (min_support \<le> of_nat c / of_nat N)"

fun mine :: "nat \<Rightarrow> rat \<Rightarrow> string list \<Rightarrow> string list \<Rightarrow> fptree list
    \<Rightarrow> (string list \<times> nat) list" where
  \<comment> \<open>Modelled from the spec: step (4). The items come in ascending support order, so the
      items after \<open>x\<close> are the ones that can precede it on a path.\<close>
  "mine N min_support [] suffix forest = []"
| "mine N min_support (x # rest) suffix forest =
     (let c = item_count x forest
      in (if frequent N min_support c
          then (x # suffix, c)
               # mine N min_support rest (x # suffix) (build (cond_paths [] x forest))
          else [])
         @ mine N min_support rest suffix forest)"

definition decode :: "onehot \<Rightarrow> string list list" where
  \<comment> \<open>The transactions a one-hot matrix stands for.\<close>
  "decode oh = map (row_members (oh_columns oh)) (oh_rows oh)"

definition occurrences :: "string list list \<Rightarrow> string \<Rightarrow> nat" where
  \<comment> \<open>Modelled from the spec: step (1), in how many transactions an item occurs.\<close>
  "occurrences D i = length (filter (\<lambda>t. i \<in> set t) D)"

definition support_order :: "string list list \<Rightarrow> string list \<Rightarrow> string list" where
  \<comment> \<open>Modelled from the spec: step (2), descending support, ties by label.\<close>
  "support_order D items = sort_key (\<lambda>i. (- int (occurrences D i), i)) items"

definition fpgrowth_spec :: "onehot \<Rightarrow> rat \<Rightarrow> exn + freq_itemset list" where
  \<comment> \<open>Modelled from the spec: the miner, steps (1) to (4).\<close>
  "fpgrowth_spec oh min_support =
     (let D = decode oh; N = length D
      in if N = 0 then Inl ''ValueError''
         else (let items = filter (\<lambda>i. frequent N min_support (occurrences D i)) (oh_columns oh);
                   order = support_order D items;
                   paths = map (\<lambda>t. (filter (\<lambda>i. i \<in> set t) order, 1)) D;
                   tree = build paths
               in Inr (map (\<lambda>(s, c). \<lparr>fi_support = of_nat c / of_nat N, fi_itemsets = s\<rparr>)
                         (mine N min_support (rev order) [] tree))))"

definition brute_force :: "onehot \<Rightarrow> rat \<Rightarrow> freq_itemset list" where
  \<comment> \<open>The reference the specification compares the miner with: every non-empty subset of
      the item universe whose support reaches the minimum support, with its support.\<close>
  "brute_force oh min_support =
     (let D = decode oh
      in map (\<lambda>s. \<lparr>fi_support = supp D s, fi_itemsets = s\<rparr>)
           (filter (\<lambda>s. s \<noteq> [] \<and> min_support \<le> supp D s) (subseqs (oh_columns oh))))"

definition wcount :: "(string list \<times> nat) list \<Rightarrow> string set \<Rightarrow> nat" where
  \<comment> \<open>What a list of weighted paths stands for: the total weight of the paths that contain
      every item of \<open>S\<close>.\<close>
  "wcount paths S = sum_list (map (\<lambda>(t, c). if S \<subseteq> set t then c else 0) paths)"

section \<open>Facts about stripping and cleaning\<close>

lemma strip_Nil [simp]: "strip [] = []"
  by (simp add: strip_def)

lemma strip_nonempty_arg: "strip x \<noteq> [] \<Longrightarrow> x \<noteq> []"
  by auto

lemma keep_cell_iff: "keep_cell x = (strip x \<noteq> [] \<and> lower x \<noteq> ''nan'')"
  by (auto simp: keep_cell_def)

lemma dropWhile_rev_dropWhile:
  "dropWhile P (rev (dropWhile Q (rev (dropWhile P s)))) = rev (dropWhile Q (rev (dropWhile P s)))"
proof -
  define d where "d = dropWhile P s"
  define p where "p = rev (dropWhile Q (rev d))"
  have split: "d = p @ rev (takeWhile Q (rev d))"
    unfolding p_def by (metis rev_append rev_rev_ident takeWhile_dropWhile_id)
  have "dropWhile P p = p"
  proof (cases p)
    case Nil
    then show ?thesis by simp
  next
    case (Cons y ps)
    with split have "d = y # (ps @ rev (takeWhile Q (rev d)))" by simp
    then have "d \<noteq> []" and "hd d = y"
      by (metis list.distinct(1), metis list.sel(1))
    then have "\<not> P y" unfolding d_def using hd_dropWhile by metis
    with Cons show ?thesis by simp
  qed
  then show ?thesis unfolding p_def d_def .
qed

lemma strip_strip: "strip (strip s) = strip s"
  unfolding strip_def
  by (simp add: dropWhile_rev_dropWhile dropWhile_idem)

lemma vals_rename_columns [simp]: "vals (rename_columns df) = vals df"
  by (simp add: rename_columns_def)

lemma transactions_of_rename [simp]: "transactions_of (rename_columns df) = transactions_of df"
  by (simp add: transactions_of_def)


lemma load_parsed:
  "read_csv (csv_input_of file) (header_arg has_header) = Inr df \<Longrightarrow>
   load_transactions_from_csv read_csv file has_header = Inr (rename_columns df, transactions_of df)"
  by (simp add: load_transactions_from_csv_def)

lemma nonempty_transactions_of: "t \<in> set (transactions_of df) \<Longrightarrow> t \<noteq> []"
  by (auto simp: transactions_of_def)

lemma length_generic_names [simp]: "length (generic_names n) = n"
  by (simp add: generic_names_def)

lemma nth_generic_names: "i < n \<Longrightarrow> generic_names n ! i = ''Item_'' @ str_nat (i + 1)"
  by (simp add: generic_names_def nth_append del: upt_Suc)

section \<open>The loader never raises on a parsed table\<close>

text \<open>
  C2 (amended): the loader raises exactly when the parser raises, and passes that exception
  on. For every source that parses as a table it returns the table (columns possibly
  renamed) with the cleaned non-empty rows; when every row cleans to nothing, the
  transaction list it returns is empty.
\<close>

theorem load_returns_when_parsed:
  "(load_transactions_from_csv read_csv file has_header = Inl e)
     = (read_csv (csv_input_of file) (header_arg has_header) = Inl e)
   \<and> (read_csv (csv_input_of file) (header_arg has_header) = Inr df \<longrightarrow>
        (\<exists>df'. load_transactions_from_csv read_csv file has_header
                 = Inr (df', filter (\<lambda>t. t \<noteq> []) (map (\<lambda>row. clean_row (map cell_text row)) (vals df)))))
   \<and> (read_csv (csv_input_of file) (header_arg has_header) = Inr df
        \<and> (\<forall>row \<in> set (vals df). clean_row (map cell_text row) = []) \<longrightarrow>
        load_transactions_from_csv read_csv file has_header = Inr (rename_columns df, []))"
proof (intro conjI impI)
  show "(load_transactions_from_csv read_csv file has_header = Inl e)
     = (read_csv (csv_input_of file) (header_arg has_header) = Inl e)"
    by (simp add: load_transactions_from_csv_def Let_def split: sum.splits)
next
  assume p: "read_csv (csv_input_of file) (header_arg has_header) = Inr df"
  have "load_transactions_from_csv read_csv file has_header
          = Inr (rename_columns df, transactions_of df)"
    using p by (simp add: load_transactions_from_csv_def)
  then show "\<exists>df'. load_transactions_from_csv read_csv file has_header
                 = Inr (df', filter (\<lambda>t. t \<noteq> []) (map (\<lambda>row. clean_row (map cell_text row)) (vals df)))"
    by (simp add: transactions_of_def comp_def)
next
  assume a: "read_csv (csv_input_of file) (header_arg has_header) = Inr df
        \<and> (\<forall>row \<in> set (vals df). clean_row (map cell_text row) = [])"
  then have "transactions_of df = []"
    by (simp add: transactions_of_def filter_empty_conv)
  with a show "load_transactions_from_csv read_csv file has_header = Inr (rename_columns df, [])"
    by (simp add: load_transactions_from_csv_def)
qed

theorem load_returns_when_parsed_witness:
  "load_transactions_from_csv
     (\<lambda>_ _. Inr \<lparr>columns = ObjectIndex [''Item'', ''Brand''], vals = [[NaN, Val '' '']]\<rparr>)
     (FileBytes ''Item,Brand'') (Some True)
   = Inr (\<lparr>columns = ObjectIndex [''Item'', ''Brand''], vals = [[NaN, Val '' '']]\<rparr>, [])"
proof -
  let ?df = "\<lparr>columns = ObjectIndex [''Item'', ''Brand''], vals = [[NaN, Val '' '']]\<rparr>"
  have h: "\<forall>row \<in> set (vals ?df). clean_row (map cell_text row) = []"
    by code_simp
  have r: "rename_columns ?df = ?df"
    by code_simp
  from load_returns_when_parsed [of "\<lambda>_ _. Inr ?df" "FileBytes ''Item,Brand''" "Some True" _ ?df] h r
  show ?thesis by simp
qed


text \<open>
  C2, as stated, fails: a header-only file read with the header flag set parses to a table
  with two named columns and no rows; the loader returns that table with the empty
  transaction list, and raises nothing.
\<close>

theorem load_header_only_counterexample:
  "load_transactions_from_csv
     (\<lambda>_ _. Inr \<lparr>columns = ObjectIndex [''Item'', ''Brand''], vals = []\<rparr>)
     (FilePath ''baskets.csv'') (Some True)
   = Inr (\<lparr>columns = ObjectIndex [''Item'', ''Brand''], vals = []\<rparr>, [])
   \<and> load_transactions_from_csv
     (\<lambda>_ _. Inr \<lparr>columns = ObjectIndex [''Item'', ''Brand''], vals = []\<rparr>)
     (FilePath ''baskets.csv'') (Some True) \<noteq> Inl ''EmptyDatasetError''"
  by code_simp

section \<open>What a row becomes\<close>

text \<open>
  C3 (amended): for every parsed table, the transaction list is made, row by row and in
  row order, of the cells whose text is non-empty after stripping and whose lower-cased
  text (before stripping) is not \<open>nan\<close>, each stripped, in cell order; rows left with no
  item are dropped. Every returned transaction is non-empty, and each of its items is
  non-empty and carries no leading or trailing whitespace.
\<close>

theorem load_transactions_rows:
  assumes "read_csv (csv_input_of file) (header_arg has_header) = Inr df"
  shows "(\<exists>df'. load_transactions_from_csv read_csv file has_header =
           Inr (df', filter (\<lambda>t. t \<noteq> [])
                  (map (\<lambda>row. map strip
                          (filter (\<lambda>x. strip x \<noteq> [] \<and> lower x \<noteq> ''nan'') (map cell_text row)))
                       (vals df))))
    \<and> (\<forall>df' txns. load_transactions_from_csv read_csv file has_header = Inr (df', txns) \<longrightarrow>
           (\<forall>t \<in> set txns. t \<noteq> [] \<and> (\<forall>x \<in> set t. x \<noteq> [] \<and> strip x = x)))"
proof (rule conjI)
  have l: "load_transactions_from_csv read_csv file has_header
             = Inr (rename_columns df, transactions_of df)"
    using assms by (simp add: load_transactions_from_csv_def)
  have k: "keep_cell = (\<lambda>x. strip x \<noteq> [] \<and> lower x \<noteq> ''nan'')"
    by (rule ext) (rule keep_cell_iff)
  have t: "transactions_of df = filter (\<lambda>t. t \<noteq> [])
                  (map (\<lambda>row. map strip
                          (filter (\<lambda>x. strip x \<noteq> [] \<and> lower x \<noteq> ''nan'') (map cell_text row)))
                       (vals df))"
    by (simp add: transactions_of_def clean_row_def k comp_def)
  from l t show "\<exists>df'. load_transactions_from_csv read_csv file has_header =
           Inr (df', filter (\<lambda>t. t \<noteq> [])
                  (map (\<lambda>row. map strip
                          (filter (\<lambda>x. strip x \<noteq> [] \<and> lower x \<noteq> ''nan'') (map cell_text row)))
                       (vals df)))"
    by simp
  have items: "x \<noteq> [] \<and> strip x = x" if "t \<in> set (transactions_of df)" "x \<in> set t" for t x
  proof -
    from that obtain row where "t = clean_row row"
      by (auto simp: transactions_of_def)
    with that obtain y where y: "x = strip y" "keep_cell y"
      by (auto simp: clean_row_def)
    then show ?thesis by (simp add: keep_cell_def strip_strip)
  qed
  show "\<forall>df' txns. load_transactions_from_csv read_csv file has_header = Inr (df', txns) \<longrightarrow>
           (\<forall>t \<in> set txns. t \<noteq> [] \<and> (\<forall>x \<in> set t. x \<noteq> [] \<and> strip x = x))"
    using l items nonempty_transactions_of by auto
qed

theorem load_transactions_rows_witness:
  "\<exists>df'. load_transactions_from_csv
     (\<lambda>_ _. Inr \<lparr>columns = ObjectIndex [''Item'', ''Brand''],
                    vals = [[Val '' milk '', NaN, Val ''Nan''], [NaN, Val ''  ''],
                            [Val '' nan'', Val ''bread'']]\<rparr>)
     (FilePath ''baskets.csv'') (Some True)
   = Inr (df', [[''milk''], [''nan'', ''bread'']])"
proof -
  let ?df = "\<lparr>columns = ObjectIndex [''Item'', ''Brand''],
                    vals = [[Val '' milk '', NaN, Val ''Nan''], [NaN, Val ''  ''],
                            [Val '' nan'', Val ''bread'']]\<rparr>"
  have e: "filter (\<lambda>t. t \<noteq> [])
                  (map (\<lambda>row. map strip
                          (filter (\<lambda>x. strip x \<noteq> [] \<and> lower x \<noteq> ''nan'') (map cell_text row)))
                       (vals ?df)) = [[''milk''], [''nan'', ''bread'']]"
    by code_simp
  have "(\<lambda>_ _. Inr ?df) (csv_input_of (FilePath ''baskets.csv'')) (header_arg (Some True)) = (Inr ?df :: exn + dataframe)"
    by simp
  from load_transactions_rows [OF this] show ?thesis
    unfolding e by blast
qed

text \<open>
  C3, as stated, fails: the cell \<open>NAN\<close> is non-empty after stripping and is not the text
  \<open>nan\<close>, yet the loader drops it, because it compares the lower-cased cell.
\<close>

theorem clean_row_NAN_counterexample:
  "load_transactions_from_csv
     (\<lambda>_ _. Inr \<lparr>columns = ObjectIndex [''Item'', ''Brand''], vals = [[Val ''milk'', Val ''NAN'']]\<rparr>)
     (FilePath ''baskets.csv'') (Some True)
   = Inr (\<lparr>columns = ObjectIndex [''Item'', ''Brand''], vals = [[Val ''milk'', Val ''NAN'']]\<rparr>,
          [[''milk'']])
   \<and> claimed_row_items (map cell_text [Val ''milk'', Val ''NAN'']) = [''milk'', ''NAN'']"
  by code_simp

section \<open>The header flag and the column-name heuristic\<close>

text \<open>
  C4 (amended): the header flag decides only what the parser is told: \<open>header=0\<close> when the
  flag is true (the first row gives the column names and is no data row), no header when
  it is false or unspecified. The integer-like-column-name heuristic is consulted in every
  mode: whenever the parsed column index is integer-typed or one of its names is all
  digits, the columns are renamed \<open>Item_1\<close>, \<open>Item_2\<close>, ... by position. In particular an
  integer-typed index of \<open>n\<close> columns always becomes \<open>Item_1\<close> ... \<open>Item_n\<close>.
\<close>

theorem header_flag_and_heuristic:
  "header_arg (Some True) = Some 0 \<and> header_arg (Some False) = None \<and> header_arg None = None
   \<and> (read_csv (csv_input_of file) (header_arg has_header) = Inr df \<longrightarrow>
        (\<exists>txns. load_transactions_from_csv read_csv file has_header =
            Inr (if looks_headerless (columns df)
                 then df\<lparr>columns := ObjectIndex (generic_names (ncols df))\<rparr> else df, txns)))
   \<and> (read_csv (csv_input_of file) (header_arg has_header) = Inr df
          \<and> columns df = Int64Index ks \<longrightarrow>
        (\<exists>txns. load_transactions_from_csv read_csv file has_header =
            Inr (df\<lparr>columns := ObjectIndex (generic_names (length ks))\<rparr>, txns))
        \<and> length (generic_names (length ks)) = length ks
        \<and> (\<forall>i < length ks. generic_names (length ks) ! i = ''Item_'' @ str_nat (i + 1)))"
proof (intro conjI impI allI)
  assume "read_csv (csv_input_of file) (header_arg has_header) = Inr df"
  with load_parsed [of read_csv "file" has_header df]
  show "\<exists>txns. load_transactions_from_csv read_csv file has_header =
            Inr (if looks_headerless (columns df)
                 then df\<lparr>columns := ObjectIndex (generic_names (ncols df))\<rparr> else df, txns)"
    by (simp add: rename_columns_def)
next
  assume a: "read_csv (csv_input_of file) (header_arg has_header) = Inr df
          \<and> columns df = Int64Index ks"
  then have "rename_columns df = df\<lparr>columns := ObjectIndex (generic_names (length ks))\<rparr>"
    by (simp add: rename_columns_def looks_headerless_def ncols_def)
  with a load_parsed [of read_csv "file" has_header df]
  show "\<exists>txns. load_transactions_from_csv read_csv file has_header =
            Inr (df\<lparr>columns := ObjectIndex (generic_names (length ks))\<rparr>, txns)"
    by simp
next
  fix i assume "i < length ks"
  then show "generic_names (length ks) ! i = ''Item_'' @ str_nat (i + 1)"
    by (rule nth_generic_names)
qed (simp_all add: header_arg_def)

theorem header_flag_and_heuristic_witness:
  "\<exists>txns. load_transactions_from_csv
      (\<lambda>_ h. if h = None
             then Inr \<lparr>columns = Int64Index [0, 1], vals = [[Val ''milk'', Val ''bread'']]\<rparr>
             else Inr \<lparr>columns = ObjectIndex [''milk'', ''bread''], vals = []\<rparr>)
      (FileBytes ''milk,bread'') (Some False)
    = Inr (\<lparr>columns = ObjectIndex [''Item_1'', ''Item_2''], vals = [[Val ''milk'', Val ''bread'']]\<rparr>, txns)"
proof -
  let ?rc = "\<lambda>(_::csv_input) (h::nat option). if h = None
             then (Inr \<lparr>columns = Int64Index [0, 1], vals = [[Val ''milk'', Val ''bread'']]\<rparr> :: exn + dataframe)
             else Inr \<lparr>columns = ObjectIndex [''milk'', ''bread''], vals = []\<rparr>"
  let ?df = "\<lparr>columns = Int64Index [0, 1], vals = [[Val ''milk'', Val ''bread'']]\<rparr>"
  have p: "?rc (csv_input_of (FileBytes ''milk,bread'')) (header_arg (Some False)) = Inr ?df
           \<and> columns ?df = Int64Index [0, 1]"
    by (simp add: header_arg_def)
  have g: "generic_names (length [0::int, 1]) = [''Item_1'', ''Item_2'']"
    by code_simp
  from header_flag_and_heuristic [of ?rc "FileBytes ''milk,bread''" "Some False" ?df "[0, 1]"] p
  have "\<exists>txns. load_transactions_from_csv ?rc (FileBytes ''milk,bread'') (Some False) =
            Inr (?df\<lparr>columns := ObjectIndex (generic_names (length [0::int, 1]))\<rparr>, txns)"
    by blast
  then show ?thesis unfolding g by simp
qed

text \<open>
  C4, as stated, fails: with the header flag set and a header row whose first name is all
  digits, the names read from the file are replaced by \<open>Item_1\<close>, \<open>Item_2\<close>: the
  heuristic is consulted although the flag was supplied.
\<close>

theorem header_flag_digit_name_counterexample:
  "load_transactions_from_csv
     (\<lambda>_ _. Inr \<lparr>columns = ObjectIndex [''2023'', ''Item''], vals = [[Val ''5'', Val ''milk'']]\<rparr>)
     (FilePath ''baskets.csv'') (Some True)
   = Inr (\<lparr>columns = ObjectIndex [''Item_1'', ''Item_2''], vals = [[Val ''5'', Val ''milk'']]\<rparr>,
          [[''5'', ''milk'']])"
  by code_simp

section \<open>Auto-detect is the headerless mode\<close>

text \<open>
  C10: with the header flag unspecified the loader does exactly what it does with the flag
  false: the parser is told there is no header, so the first row of the parsed table is
  data and, when anything survives cleaning, is the first transaction; the \<open>Item_i\<close>
  names are applied exactly when the parsed column names look integer-like.
\<close>

theorem auto_detect_parses_headerless:
  "load_transactions_from_csv read_csv file None = load_transactions_from_csv read_csv file (Some False)
   \<and> header_arg None = None
   \<and> (read_csv (csv_input_of file) None = Inr df \<longrightarrow>
        load_transactions_from_csv read_csv file None =
          Inr (if looks_headerless (columns df)
               then df\<lparr>columns := ObjectIndex (generic_names (ncols df))\<rparr> else df,
               transactions_of df))
   \<and> (read_csv (csv_input_of file) None = Inr df \<and> vals df = first # rest
          \<and> clean_row (map cell_text first) \<noteq> [] \<longrightarrow>
        (\<exists>df'. load_transactions_from_csv read_csv file None =
           Inr (df', clean_row (map cell_text first) # transactions_of (df\<lparr>vals := rest\<rparr>))))"
proof (intro conjI impI)
  show "load_transactions_from_csv read_csv file None
          = load_transactions_from_csv read_csv file (Some False)"
    by (simp add: load_transactions_from_csv_def header_arg_def)
next
  assume "read_csv (csv_input_of file) None = Inr df"
  then show "load_transactions_from_csv read_csv file None =
          Inr (if looks_headerless (columns df)
               then df\<lparr>columns := ObjectIndex (generic_names (ncols df))\<rparr> else df,
               transactions_of df)"
    using load_parsed [of read_csv "file" None df]
    by (simp add: header_arg_def rename_columns_def)
next
  assume a: "read_csv (csv_input_of file) None = Inr df \<and> vals df = first # rest
          \<and> clean_row (map cell_text first) \<noteq> []"
  then have "transactions_of df
               = clean_row (map cell_text first) # transactions_of (df\<lparr>vals := rest\<rparr>)"
    by (simp add: transactions_of_def)
  with a load_parsed [of read_csv "file" None df]
  show "\<exists>df'. load_transactions_from_csv read_csv file None =
           Inr (df', clean_row (map cell_text first) # transactions_of (df\<lparr>vals := rest\<rparr>))"
    by (simp add: header_arg_def)
qed (simp add: header_arg_def)

theorem auto_detect_parses_headerless_witness:
  "load_transactions_from_csv
      (\<lambda>_ h. if h = None
             then Inr \<lparr>columns = Int64Index [0, 1],
                       vals = [[Val ''Item'', Val ''Brand''], [Val ''milk'', Val ''acme'']]\<rparr>
             else Inr \<lparr>columns = ObjectIndex [''Item'', ''Brand''], vals = [[Val ''milk'', Val ''acme'']]\<rparr>)
      (FileBytes ''Item,Brand'') None
    = Inr (\<lparr>columns = ObjectIndex [''Item_1'', ''Item_2''],
             vals = [[Val ''Item'', Val ''Brand''], [Val ''milk'', Val ''acme'']]\<rparr>,
           [[''Item'', ''Brand''], [''milk'', ''acme'']])"
proof -
  let ?rc = "\<lambda>(_::csv_input) (h::nat option). if h = None
             then (Inr \<lparr>columns = Int64Index [0, 1],
                       vals = [[Val ''Item'', Val ''Brand''], [Val ''milk'', Val ''acme'']]\<rparr> :: exn + dataframe)
             else Inr \<lparr>columns = ObjectIndex [''Item'', ''Brand''], vals = [[Val ''milk'', Val ''acme'']]\<rparr>"
  let ?df = "\<lparr>columns = Int64Index [0, 1],
                       vals = [[Val ''Item'', Val ''Brand''], [Val ''milk'', Val ''acme'']]\<rparr>"
  have p: "?rc (csv_input_of (FileBytes ''Item,Brand'')) None = Inr ?df"
    by simp
  have g: "(if looks_headerless (columns ?df)
               then ?df\<lparr>columns := ObjectIndex (generic_names (ncols ?df))\<rparr> else ?df)
           = \<lparr>columns = ObjectIndex [''Item_1'', ''Item_2''],
             vals = [[Val ''Item'', Val ''Brand''], [Val ''milk'', Val ''acme'']]\<rparr>"
    by code_simp
  have t: "transactions_of ?df = [[''Item'', ''Brand''], [''milk'', ''acme'']]"
    by code_simp
  from auto_detect_parses_headerless [of ?rc "FileBytes ''Item,Brand''" ?df] p
  have "load_transactions_from_csv ?rc (FileBytes ''Item,Brand'') None =
          Inr (if looks_headerless (columns ?df)
               then ?df\<lparr>columns := ObjectIndex (generic_names (ncols ?df))\<rparr> else ?df,
               transactions_of ?df)"
    by blast
  then show ?thesis unfolding g t .
qed

section \<open>Round trip through the one-hot matrix\<close>

lemma row_members_map: "row_members cols (map f cols) = filter f cols"
  unfolding row_members_def by (induction cols) auto

lemma set_te_fit: "set (te_fit transactions) = (\<Union>t \<in> set transactions. set t)"
  by (simp add: te_fit_def)

text \<open>
  C5: for every transaction list, reading back from each row of the encoded matrix the
  column labels whose cell is true gives exactly the set of items of the corresponding
  transaction; the matrix has one row per transaction and its column labels are distinct.
\<close>

theorem one_hot_round_trip:
  "map (\<lambda>row. set (row_members (oh_columns (to_one_hot_dataframe transactions)) row))
       (oh_rows (to_one_hot_dataframe transactions))
   = map set transactions
   \<and> distinct (oh_columns (to_one_hot_dataframe transactions))
   \<and> length (oh_rows (to_one_hot_dataframe transactions)) = length transactions"
proof (intro conjI)
  have "set (row_members (te_fit transactions) (map (\<lambda>c. c \<in> set t) (te_fit transactions))) = set t"
    if "t \<in> set transactions" for t
  proof -
    have "set t \<subseteq> set (te_fit transactions)"
      using that by (auto simp: set_te_fit)
    then show ?thesis
      by (auto simp: row_members_map)
  qed
  then show "map (\<lambda>row. set (row_members (oh_columns (to_one_hot_dataframe transactions)) row))
       (oh_rows (to_one_hot_dataframe transactions)) = map set transactions"
    by (simp add: to_one_hot_dataframe_def te_transform_def Let_def comp_def)
next
  show "distinct (oh_columns (to_one_hot_dataframe transactions))"
    by (simp add: to_one_hot_dataframe_def te_fit_def Let_def)
next
  show "length (oh_rows (to_one_hot_dataframe transactions)) = length transactions"
    by (simp add: to_one_hot_dataframe_def te_transform_def Let_def)
qed

lemma to_one_hot_dataframe_example: "to_one_hot_dataframe [[''milk'', ''bread'', ''milk''], [''beer'']]
   = \<lparr>oh_columns = [''beer'', ''bread'', ''milk''], oh_rows = [[False, True, True], [True, False, False]]\<rparr>"
  by code_simp

section \<open>Order of the rules\<close>

lemma key_le_iff:
  "(sort_key_of a \<le> sort_key_of b) =
     (confidence a > confidence b \<or> (confidence a = confidence b \<and>
        (support a > support b \<or> (support a = support b \<and> lift a \<ge> lift b))))"
  by (auto simp: sort_key_of_def less_eq_prod_def)

lemma sorted_sort_values:
  "sorted_wrt (\<lambda>a b. confidence a > confidence b \<or> (confidence a = confidence b \<and>
        (support a > support b \<or> (support a = support b \<and> lift a \<ge> lift b))))
     (sort_values rules)"
proof -
  have "sorted (map sort_key_of (sort_values rules))"
    unfolding sort_values_def by (rule sorted_sort_key)
  then have "sorted_wrt (\<lambda>a b. sort_key_of a \<le> sort_key_of b) (sort_values rules)"
    by (simp add: sorted_map)
  then show ?thesis by (simp add: key_le_iff)
qed

lemma stable_sort_values:
  "filter (\<lambda>r. confidence r = c \<and> support r = s \<and> lift r = l) (sort_values rules)
     = filter (\<lambda>r. confidence r = c \<and> support r = s \<and> lift r = l) rules"
proof -
  have "(\<lambda>r. confidence r = c \<and> support r = s \<and> lift r = l) = (\<lambda>r. sort_key_of r = (- c, - s, - l))"
    by (auto simp: sort_key_of_def fun_eq_iff)
  then show ?thesis
    unfolding sort_values_def by (simp add: sort_key_stable)
qed

text \<open>
  C7 (amended): whenever the mining step returns, its rules are in descending order of
  confidence, then of support, then of lift. They are the rules of the rule generator,
  rearranged: same rules, same number. The sort is stable and has no tie-break key of its
  own: rules tied on all three keys keep the order in which the rule generator produced
  them, so their order is fixed only as far as the rule generator's order is.
\<close>

theorem rules_sorted_for_presentation:
  assumes "mine_itemsets_and_rules fpgrowth association_rules df_onehot min_support min_conf
             = Inr (itemsets, rules)"
  shows "sorted_wrt (\<lambda>a b. confidence a > confidence b \<or> (confidence a = confidence b \<and>
            (support a > support b \<or> (support a = support b \<and> lift a \<ge> lift b)))) rules
    \<and> (itemsets \<noteq> [] \<longrightarrow>
         (\<exists>raw. association_rules itemsets min_conf = Inr raw \<and> set rules = set raw \<and> length rules = length raw
            \<and> (\<forall>c s l. filter (\<lambda>r. confidence r = c \<and> support r = s \<and> lift r = l) rules
                       = filter (\<lambda>r. confidence r = c \<and> support r = s \<and> lift r = l) raw)))"
proof (cases "itemsets = []")
  case True
  with assms have "rules = []"
    by (auto simp: mine_itemsets_and_rules_def split: sum.splits if_splits)
  with True show ?thesis by simp
next
  case False
  with assms obtain raw where raw: "association_rules itemsets min_conf = Inr raw"
      and r: "rules = sort_values raw"
    by (auto simp: mine_itemsets_and_rules_def split: sum.splits if_splits)
  have "set rules = set raw \<and> length rules = length raw"
    by (simp add: r sort_values_def)
  with raw r show ?thesis
    using sorted_sort_values [of raw] stable_sort_values [of _ _ _ raw] by auto
qed

theorem rules_sorted_for_presentation_witness:
  "mine_itemsets_and_rules
     (\<lambda>_ _. Inr [\<lparr>fi_support = 4/5, fi_itemsets = [''bread'']\<rparr>,
                  \<lparr>fi_support = 4/5, fi_itemsets = [''milk'']\<rparr>,
                  \<lparr>fi_support = 3/5, fi_itemsets = [''bread'', ''milk'']\<rparr>])
     (\<lambda>_ _. Inr [\<lparr>antecedents = [''bread''], consequents = [''milk''], support = 3/5,
                    confidence = 3/4, lift = 15/16, leverage = - 1/25, conviction = Some (4/5)\<rparr>,
                  \<lparr>antecedents = [''beer''], consequents = [''diaper''], support = 3/5,
                    confidence = 1, lift = 5/4, leverage = 3/25, conviction = None\<rparr>,
                  \<lparr>antecedents = [''milk''], consequents = [''bread''], support = 3/5,
                    confidence = 3/4, lift = 15/16, leverage = - 1/25, conviction = Some (4/5)\<rparr>])
     \<lparr>oh_columns = [''bread'', ''milk''], oh_rows = [[True, True]]\<rparr> (3/5) (3/5)
   = Inr ([\<lparr>fi_support = 4/5, fi_itemsets = [''bread'']\<rparr>,
           \<lparr>fi_support = 4/5, fi_itemsets = [''milk'']\<rparr>,
           \<lparr>fi_support = 3/5, fi_itemsets = [''bread'', ''milk'']\<rparr>],
          [\<lparr>antecedents = [''beer''], consequents = [''diaper''], support = 3/5,
                    confidence = 1, lift = 5/4, leverage = 3/25, conviction = None\<rparr>,
           \<lparr>antecedents = [''bread''], consequents = [''milk''], support = 3/5,
                    confidence = 3/4, lift = 15/16, leverage = - 1/25, conviction = Some (4/5)\<rparr>,
           \<lparr>antecedents = [''milk''], consequents = [''bread''], support = 3/5,
                    confidence = 3/4, lift = 15/16, leverage = - 1/25, conviction = Some (4/5)\<rparr>])
   \<and> sorted_wrt (\<lambda>a b. confidence a > confidence b \<or> (confidence a = confidence b \<and>
            (support a > support b \<or> (support a = support b \<and> lift a \<ge> lift b))))
         [\<lparr>antecedents = [''beer''], consequents = [''diaper''], support = 3/5,
                    confidence = 1, lift = 5/4, leverage = 3/25, conviction = None\<rparr>,
           \<lparr>antecedents = [''bread''], consequents = [''milk''], support = 3/5,
                    confidence = 3/4, lift = 15/16, leverage = - 1/25, conviction = Some (4/5)\<rparr>,
           \<lparr>antecedents = [''milk''], consequents = [''bread''], support = 3/5,
                    confidence = 3/4, lift = 15/16, leverage = - 1/25, conviction = Some (4/5)\<rparr>]"
proof -
  let ?its = "[\<lparr>fi_support = 4/5, fi_itemsets = [''bread'']\<rparr>,
                  \<lparr>fi_support = 4/5, fi_itemsets = [''milk'']\<rparr>,
                  \<lparr>fi_support = 3/5, fi_itemsets = [''bread'', ''milk'']\<rparr>]"
  let ?r1 = "\<lparr>antecedents = [''bread''], consequents = [''milk''], support = 3/5,
                    confidence = 3/4, lift = 15/16, leverage = - 1/25, conviction = Some (4/5)\<rparr>"
  let ?r2 = "\<lparr>antecedents = [''beer''], consequents = [''diaper''], support = 3/5,
                    confidence = 1, lift = 5/4, leverage = 3/25, conviction = None\<rparr>"
  let ?r3 = "\<lparr>antecedents = [''milk''], consequents = [''bread''], support = 3/5,
                    confidence = 3/4, lift = 15/16, leverage = - 1/25, conviction = Some (4/5)\<rparr>"
  have run: "mine_itemsets_and_rules (\<lambda>_ _. Inr ?its) (\<lambda>_ _. Inr [?r1, ?r2, ?r3])
     \<lparr>oh_columns = [''bread'', ''milk''], oh_rows = [[True, True]]\<rparr> (3/5) (3/5)
     = Inr (?its, [?r2, ?r1, ?r3])"
    by (simp add: mine_itemsets_and_rules_def sort_values_def sort_key_of_def less_eq_prod_def)
  from rules_sorted_for_presentation [OF run] run show ?thesis
    by blast
qed

text \<open>
  C7, as stated, fails: the step adds no deterministic tie-break. The same two rules, tied
  on confidence, support and lift, handed over by the rule generator in one order or in
  the other, leave the step in the order they came in: two different outputs for the same
  itemsets, thresholds and set of rules.
\<close>

theorem tied_rules_order_counterexample:
  "mine_itemsets_and_rules
     (\<lambda>_ _. Inr [\<lparr>fi_support = 4/5, fi_itemsets = [''bread'']\<rparr>,
                  \<lparr>fi_support = 4/5, fi_itemsets = [''milk'']\<rparr>,
                  \<lparr>fi_support = 3/5, fi_itemsets = [''bread'', ''milk'']\<rparr>])
     (\<lambda>_ _. Inr [\<lparr>antecedents = [''bread''], consequents = [''milk''], support = 3/5,
                    confidence = 3/4, lift = 15/16, leverage = - (1/25), conviction = Some (4/5)\<rparr>,
                  \<lparr>antecedents = [''milk''], consequents = [''bread''], support = 3/5,
                    confidence = 3/4, lift = 15/16, leverage = - (1/25), conviction = Some (4/5)\<rparr>])
     \<lparr>oh_columns = [''bread'', ''milk''], oh_rows = [[True, True]]\<rparr> (3/5) (3/5)
   = Inr ([\<lparr>fi_support = 4/5, fi_itemsets = [''bread'']\<rparr>,
           \<lparr>fi_support = 4/5, fi_itemsets = [''milk'']\<rparr>,
           \<lparr>fi_support = 3/5, fi_itemsets = [''bread'', ''milk'']\<rparr>],
          [\<lparr>antecedents = [''bread''], consequents = [''milk''], support = 3/5,
             confidence = 3/4, lift = 15/16, leverage = - (1/25), conviction = Some (4/5)\<rparr>,
           \<lparr>antecedents = [''milk''], consequents = [''bread''], support = 3/5,
             confidence = 3/4, lift = 15/16, leverage = - (1/25), conviction = Some (4/5)\<rparr>])
   \<and> mine_itemsets_and_rules
     (\<lambda>_ _. Inr [\<lparr>fi_support = 4/5, fi_itemsets = [''bread'']\<rparr>,
                  \<lparr>fi_support = 4/5, fi_itemsets = [''milk'']\<rparr>,
                  \<lparr>fi_support = 3/5, fi_itemsets = [''bread'', ''milk'']\<rparr>])
     (\<lambda>_ _. Inr [\<lparr>antecedents = [''milk''], consequents = [''bread''], support = 3/5,
                    confidence = 3/4, lift = 15/16, leverage = - (1/25), conviction = Some (4/5)\<rparr>,
                  \<lparr>antecedents = [''bread''], consequents = [''milk''], support = 3/5,
                    confidence = 3/4, lift = 15/16, leverage = - (1/25), conviction = Some (4/5)\<rparr>])
     \<lparr>oh_columns = [''bread'', ''milk''], oh_rows = [[True, True]]\<rparr> (3/5) (3/5)
   = Inr ([\<lparr>fi_support = 4/5, fi_itemsets = [''bread'']\<rparr>,
           \<lparr>fi_support = 4/5, fi_itemsets = [''milk'']\<rparr>,
           \<lparr>fi_support = 3/5, fi_itemsets = [''bread'', ''milk'']\<rparr>],
          [\<lparr>antecedents = [''milk''], consequents = [''bread''], support = 3/5,
             confidence = 3/4, lift = 15/16, leverage = - (1/25), conviction = Some (4/5)\<rparr>,
           \<lparr>antecedents = [''bread''], consequents = [''milk''], support = 3/5,
             confidence = 3/4, lift = 15/16, leverage = - (1/25), conviction = Some (4/5)\<rparr>])
   \<and> [\<lparr>antecedents = [''bread''], consequents = [''milk''], support = 3/5,
             confidence = 3/4, lift = 15/16, leverage = - (1/25), conviction = Some (4/5)\<rparr>,
        \<lparr>antecedents = [''milk''], consequents = [''bread''], support = 3/5,
             confidence = 3/4, lift = 15/16, leverage = - (1/25), conviction = Some (4/5)\<rparr>]
     \<noteq> [\<lparr>antecedents = [''milk''], consequents = [''bread''], support = 3/5,
             confidence = 3/4, lift = 15/16, leverage = - (1/25), conviction = Some (4/5)\<rparr>,
        \<lparr>antecedents = [''bread''], consequents = [''milk''], support = 3/5,
             confidence = 3/4, lift = 15/16, leverage = - (1/25), conviction = Some (4/5)\<rparr>]"
  by (simp add: mine_itemsets_and_rules_def sort_values_def sort_key_of_def)

section \<open>Empty results\<close>








section \<open>Confidence of the generated rules\<close>

lemma contains_all_iff: "contains_all t s = (set s \<subseteq> set t)"
  by (auto simp: contains_all_def list_all_iff)

lemma same_items_iff: "same_items a b = (set a = set b)"
  by (auto simp: same_items_def contains_all_iff)

lemma supp_cong: "set a = set b \<Longrightarrow> supp D a = supp D b"
  by (simp add: supp_def contains_all_iff)

lemma supp_nonneg: "0 \<le> supp D s"
  by (simp add: supp_def)

lemma supp_antimono:
  assumes "set a \<subseteq> set b"
  shows "supp D b \<le> supp D a"
proof -
  have "length (filter (\<lambda>t. contains_all t b) D) \<le> length (filter (\<lambda>t. contains_all t a) D)"
  proof (induction D)
    case Nil
    then show ?case by simp
  next
    case (Cons t D)
    have "contains_all t b \<Longrightarrow> contains_all t a"
      using assms by (auto simp: contains_all_iff)
    with Cons show ?case by auto
  qed
  then show ?thesis
    by (simp add: supp_def divide_right_mono)
qed

lemma supp_lookup_true:
  assumes "\<forall>row \<in> set table. fi_support row = supp D (fi_itemsets row)"
    and "supp_lookup table s = Inr v"
  shows "v = supp D s"
proof -
  from assms(2) obtain row where f: "find (\<lambda>row. same_items (fi_itemsets row) s) table = Some row"
      and v: "v = fi_support row"
    by (auto simp: supp_lookup_def split: option.splits)
  from f have m: "row \<in> set table" and "same_items (fi_itemsets row) s"
    by (auto simp: find_Some_iff)
  then have "set (fi_itemsets row) = set s"
    by (simp add: same_items_iff)
  then have "supp D (fi_itemsets row) = supp D s"
    by (rule supp_cong)
  moreover from assms(1) m have "fi_support row = supp D (fi_itemsets row)"
    by blast
  ultimately show ?thesis
    using v by simp
qed

lemma collect_Inr:
  "collect xs = Inr ys \<Longrightarrow> xs = map Inr ys"
proof (induction xs arbitrary: ys)
  case Nil
  then show ?case by simp
next
  case (Cons x xs)
  then show ?case by (cases x) (auto split: sum.splits)
qed

lemma antecedent_subset:
  assumes "a \<in> set (antecedent_candidates s)"
  shows "set a \<subseteq> set s"
proof -
  from assms have "a \<in> set (subseqs s)"
    by (simp add: antecedent_candidates_def)
  then have "set a \<in> set ` set (subseqs s)"
    by (rule imageI)
  then show ?thesis
    by (simp add: subseqs_powset)
qed

lemma candidate_rule_parts:
  assumes "candidate_rule table row a = Inr r"
  shows "\<exists>sA. supp_lookup table a = Inr sA \<and> sA \<noteq> 0 \<and> confidence r = fi_support row / sA"
proof (cases "supp_lookup table a")
  case (Inl e)
  with assms show ?thesis by (simp add: candidate_rule_def)
next
  case (Inr sA)
  note A = this
  show ?thesis
  proof (cases "supp_lookup table (filter (\<lambda>x. x \<notin> set a) (fi_itemsets row))")
    case (Inl e)
    with assms A show ?thesis by (simp add: candidate_rule_def)
  next
    case (Inr sC)
    show ?thesis
    proof (cases "sA = 0 \<or> sC = 0")
      case True
      with assms A Inr show ?thesis by (simp add: candidate_rule_def)
    next
      case False
      with assms A Inr have "r = \<lparr>antecedents = a,
           consequents = filter (\<lambda>x. x \<notin> set a) (fi_itemsets row), support = fi_support row,
           confidence = fi_support row / sA, lift = fi_support row / sA / sC,
           leverage = fi_support row - sA * sC,
           conviction = (if fi_support row / sA = 1 then None
                         else Some ((1 - sC) / (1 - fi_support row / sA)))\<rparr>"
        by (simp add: candidate_rule_def Let_def)
      then have "confidence r = fi_support row / sA" by simp
      with A False show ?thesis by simp
    qed
  qed
qed

lemma candidate_rule_confidence:
  assumes tab: "\<forall>row \<in> set table. fi_support row = supp D (fi_itemsets row)"
    and row: "row \<in> set table"
    and a: "a \<in> set (antecedent_candidates (fi_itemsets row))"
    and r: "candidate_rule table row a = Inr r"
  shows "0 \<le> confidence r \<and> confidence r \<le> 1"
proof -
  from candidate_rule_parts [OF r] obtain sA where sA: "supp_lookup table a = Inr sA"
      and nz: "sA \<noteq> 0"
      and c: "confidence r = fi_support row / sA"
    by blast
  from supp_lookup_true [OF tab sA] have sAe: "sA = supp D a" .
  from tab row have sr: "fi_support row = supp D (fi_itemsets row)" by blast
  have le: "fi_support row \<le> sA"
    unfolding sAe sr by (rule supp_antimono) (rule antecedent_subset [OF a])
  have "0 \<le> sA" unfolding sAe by (rule supp_nonneg)
  with nz have pos: "0 < sA" by simp
  have nn: "0 \<le> fi_support row" unfolding sr by (rule supp_nonneg)
  have "0 \<le> fi_support row / sA"
    using nn pos by simp
  moreover have "fi_support row / sA \<le> 1"
    using le pos by simp
  ultimately show ?thesis
    unfolding c by (rule conjI)
qed

lemma in_concat_cands:
  "(x \<in> set (concat (map (\<lambda>row. if P row then map (f row) (g row) else []) table)))
     = (\<exists>row \<in> set table. P row \<and> x \<in> f row ` set (g row))"
  by (induction table) auto

text \<open>
  C9: when the table of itemsets carries the supports that the itemsets have in a
  transaction list, every rule returned by rule generation has a confidence between 0 and
  1 that reaches the minimum confidence; and every candidate (a non-empty proper subset of
  a tabled itemset of size at least two, as antecedent) is among the returned rules exactly
  when its confidence reaches the minimum confidence.
\<close>

theorem generated_rules_confidence:
  assumes tab: "\<forall>row \<in> set table. fi_support row = supp D (fi_itemsets row)"
    and gen: "generate_rules table min_confidence = Inr rules"
  shows "(\<forall>r \<in> set rules. 0 \<le> confidence r \<and> confidence r \<le> 1 \<and> min_confidence \<le> confidence r)
    \<and> (\<forall>row \<in> set table. \<forall>a \<in> set (antecedent_candidates (fi_itemsets row)).
          2 \<le> length (fi_itemsets row) \<longrightarrow>
          (\<exists>r. candidate_rule table row a = Inr r
               \<and> (r \<in> set rules) = (min_confidence \<le> confidence r)))"
proof -
  define cs where "cs = concat (map (\<lambda>row.
              if 2 \<le> length (fi_itemsets row)
              then map (candidate_rule table row) (antecedent_candidates (fi_itemsets row))
              else []) table)"
  have mem: "(x \<in> set cs) = (\<exists>row \<in> set table. 2 \<le> length (fi_itemsets row)
                 \<and> x \<in> candidate_rule table row ` set (antecedent_candidates (fi_itemsets row)))" for x
    unfolding cs_def by (rule in_concat_cands)
  from gen obtain cands where col: "collect cs = Inr cands"
      and rules: "rules = filter (\<lambda>r. min_confidence \<le> confidence r) cands"
    unfolding generate_rules_def cs_def [symmetric]
    by (cases "collect cs") auto
  from collect_Inr [OF col] have cs: "cs = map Inr cands" .
  have first: "0 \<le> confidence r \<and> confidence r \<le> 1 \<and> min_confidence \<le> confidence r"
    if "r \<in> set rules" for r
  proof -
    from that rules have rc: "r \<in> set cands" and mc: "min_confidence \<le> confidence r" by auto
    then have "Inr r \<in> set cs" by (simp add: cs)
    then obtain row a where "row \<in> set table"
        "a \<in> set (antecedent_candidates (fi_itemsets row))" "candidate_rule table row a = Inr r"
      unfolding mem by force
    from candidate_rule_confidence [OF tab this] mc show ?thesis by simp
  qed
  have second: "\<exists>r. candidate_rule table row a = Inr r
               \<and> (r \<in> set rules) = (min_confidence \<le> confidence r)"
    if "row \<in> set table" "a \<in> set (antecedent_candidates (fi_itemsets row))"
       "2 \<le> length (fi_itemsets row)" for row a
  proof -
    from that have "candidate_rule table row a \<in> set cs"
      unfolding mem by blast
    then obtain r where r: "candidate_rule table row a = Inr r" "r \<in> set cands"
      unfolding cs by auto
    with rules show ?thesis by auto
  qed
  from first second show ?thesis by blast
qed

theorem generated_rules_confidence_witness:
  "generate_rules [\<lparr>fi_support = 4/5, fi_itemsets = [''bread'']\<rparr>,
                   \<lparr>fi_support = 4/5, fi_itemsets = [''milk'']\<rparr>,
                   \<lparr>fi_support = 3/5, fi_itemsets = [''bread'', ''milk'']\<rparr>] (3/5) =
     Inr [\<lparr>antecedents = [''bread''], consequents = [''milk''], support = 3/5,
            confidence = 3/4, lift = 15/16, leverage = - (1/25), conviction = Some (4/5)\<rparr>,
          \<lparr>antecedents = [''milk''], consequents = [''bread''], support = 3/5,
            confidence = 3/4, lift = 15/16, leverage = - (1/25), conviction = Some (4/5)\<rparr>]
   \<and> (0::rat) \<le> 3/4 \<and> (3/4::rat) \<le> 1 \<and> (3/5::rat) \<le> 3/4"
proof -
  let ?D = "[[''bread'', ''milk''], [''bread'', ''diaper'', ''beer''], [''milk'', ''diaper'', ''beer''],
     [''bread'', ''milk'', ''diaper'', ''beer''], [''bread'', ''milk'', ''diaper'']]"
  let ?table = "[\<lparr>fi_support = 4/5, fi_itemsets = [''bread'']\<rparr>,
                   \<lparr>fi_support = 4/5, fi_itemsets = [''milk'']\<rparr>,
                   \<lparr>fi_support = 3/5, fi_itemsets = [''bread'', ''milk'']\<rparr>]"
  have tab: "\<forall>row \<in> set ?table. fi_support row = supp ?D (fi_itemsets row)"
    by code_simp
  have gen: "generate_rules ?table (3/5) =
     Inr [\<lparr>antecedents = [''bread''], consequents = [''milk''], support = 3/5,
            confidence = 3/4, lift = 15/16, leverage = - (1/25), conviction = Some (4/5)\<rparr>,
          \<lparr>antecedents = [''milk''], consequents = [''bread''], support = 3/5,
            confidence = 3/4, lift = 15/16, leverage = - (1/25), conviction = Some (4/5)\<rparr>]"
    by code_simp
  from generated_rules_confidence [OF tab gen] gen show ?thesis
    by simp
qed

section \<open>Exactness of the miner\<close>

lemma wcount_Nil [simp]: "wcount [] S = 0"
  by (simp add: wcount_def)

lemma wcount_Cons [simp]: "wcount ((t, c) # paths) S = (if S \<subseteq> set t then c else 0) + wcount paths S"
  by (simp add: wcount_def)

lemma wcount_append [simp]: "wcount (A @ B) S = wcount A S + wcount B S"
  by (simp add: wcount_def)

lemma wcount_antimono:
  assumes "S \<subseteq> S'"
  shows "wcount paths S' \<le> wcount paths S"
proof (induction paths)
  case Nil
  then show ?case by simp
next
  case (Cons p paths)
  obtain t c where p: "p = (t, c)" by (cases p)
  have "S' \<subseteq> set t \<Longrightarrow> S \<subseteq> set t"
    using assms by blast
  with Cons show ?case by (simp add: p)
qed

lemma frequent_mono: "frequent N ms c \<Longrightarrow> c \<le> c' \<Longrightarrow> frequent N ms c'"
proof -
  assume f: "frequent N ms c" and le: "c \<le> c'"
  have "(of_nat c :: rat) / of_nat N \<le> of_nat c' / of_nat N"
    using le by (simp add: divide_right_mono)
  with f show ?thesis by (simp add: frequent_def)
qed

lemma cond_paths_insert:
  "wcount (cond_paths pre x (insert_path t c forest)) S
     = wcount (cond_paths pre x forest) S
       + (if x \<in> set t \<and> S \<subseteq> set pre \<union> set (takeWhile (\<lambda>y. y \<noteq> x) t) then c else 0)"
proof (induction t c forest arbitrary: pre rule: insert_path.induct)
  case (1 c forest)
  then show ?case by simp
next
  case (2 y ys c)
  show ?case
  proof (cases "y = x")
    case True
    then show ?thesis by simp
  next
    case False
    with 2 [of "pre @ [y]"] show ?thesis by (simp add: Un_assoc)
  qed
next
  case (3 y ys c z n ch forest)
  show ?case
  proof (cases "y = z")
    case True
    note yz = this
    show ?thesis
    proof (cases "z = x")
      case True
      with yz show ?thesis by simp
    next
      case False
      with yz 3(1) [OF yz, of "pre @ [z]"] show ?thesis by (simp add: Un_assoc)
    qed
  next
    case False
    have e: "insert_path (y # ys) c (Node z n ch # forest) = Node z n ch # insert_path (y # ys) c forest"
      using False by simp
    have ih: "wcount (cond_paths pre x (insert_path (y # ys) c forest)) S =
      wcount (cond_paths pre x forest) S +
      (if x \<in> set (y # ys) \<and> S \<subseteq> set pre \<union> set (takeWhile (\<lambda>y. y \<noteq> x) (y # ys))
        then c else 0)"
      by (rule 3(2) [OF False])
    have "wcount (cond_paths pre x (Node z n ch # insert_path (y # ys) c forest)) S
      = wcount (if z = x then [(pre, n)] else cond_paths (pre @ [z]) x ch) S
        + wcount (cond_paths pre x (insert_path (y # ys) c forest)) S"
      by (simp only: cond_paths.simps wcount_append)
    also have "\<dots> = wcount (if z = x then [(pre, n)] else cond_paths (pre @ [z]) x ch) S
        + wcount (cond_paths pre x forest) S
        + (if x \<in> set (y # ys) \<and> S \<subseteq> set pre \<union> set (takeWhile (\<lambda>y. y \<noteq> x) (y # ys))
           then c else 0)"
      by (simp only: ih add.assoc)
    also have "wcount (if z = x then [(pre, n)] else cond_paths (pre @ [z]) x ch) S
        + wcount (cond_paths pre x forest) S = wcount (cond_paths pre x (Node z n ch # forest)) S"
      by (simp only: cond_paths.simps wcount_append)
    finally show ?thesis
      unfolding e .
  qed
qed


lemma cond_paths_fold:
  "wcount (cond_paths pre x (fold (\<lambda>(t, c) forest. insert_path t c forest) paths forest)) S
     = wcount (cond_paths pre x forest) S
       + sum_list (map (\<lambda>(t, c). if x \<in> set t \<and> S \<subseteq> set pre \<union> set (takeWhile (\<lambda>y. y \<noteq> x) t)
                                  then c else 0) paths)"
proof (induction paths arbitrary: forest)
  case Nil
  then show ?case by simp
next
  case (Cons p paths)
  obtain t c where p: "p = (t, c)" by (cases p)
  show ?case
    by (simp only: p fold_simps Cons.IH cond_paths_insert list.map sum_list.Cons prod.case add.assoc)
qed

lemma cond_paths_build:
  "wcount (cond_paths [] x (build paths)) S
     = sum_list (map (\<lambda>(t, c). if x \<in> set t \<and> S \<subseteq> set (takeWhile (\<lambda>y. y \<noteq> x) t)
                                 then c else 0) paths)"
  unfolding build_def by (simp add: cond_paths_fold)

lemma item_count_wcount: "item_count x forest = wcount (cond_paths [] x forest) {}"
proof -
  have "sum_list (map snd ps) = wcount ps {}" for ps :: "(string list \<times> nat) list"
    by (induction ps) auto
  then show ?thesis by (simp add: item_count_def)
qed

lemma insert_path_paths:
  "(p, n) \<in> set (cond_paths pre x (insert_path t c forest)) \<Longrightarrow>
     (\<exists>n'. (p, n') \<in> set (cond_paths pre x forest))
     \<or> (x \<in> set t \<and> p = pre @ takeWhile (\<lambda>y. y \<noteq> x) t)"
proof (induction t c forest arbitrary: pre rule: insert_path.induct)
  case (1 c forest)
  then show ?case by auto
next
  case (2 y ys c)
  show ?case
  proof (cases "y = x")
    case True
    with 2(2) show ?thesis by simp
  next
    case False
    with 2(2) have "(p, n) \<in> set (cond_paths (pre @ [y]) x (insert_path ys c []))"
      by simp
    from 2(1) [OF this] False show ?thesis by simp
  qed
next
  case (3 y ys c z n0 ch forest)
  show ?case
  proof (cases "y = z")
    case True
    note yz = this
    from 3(3) yz have m: "(p, n) \<in> set (if z = x then [(pre, n0 + c)]
          else cond_paths (pre @ [z]) x (insert_path ys c ch)) \<or> (p, n) \<in> set (cond_paths pre x forest)"
      by simp
    show ?thesis
    proof (cases "z = x")
      case True
      with m yz show ?thesis by auto
    next
      case False
      from m False have "(p, n) \<in> set (cond_paths (pre @ [z]) x (insert_path ys c ch))
           \<or> (p, n) \<in> set (cond_paths pre x forest)"
        by simp
      then show ?thesis
      proof
        assume "(p, n) \<in> set (cond_paths (pre @ [z]) x (insert_path ys c ch))"
        from 3(1) [OF yz this] False yz show ?thesis by auto
      next
        assume "(p, n) \<in> set (cond_paths pre x forest)"
        then show ?thesis by auto
      qed
    qed
  next
    case False
    from 3(3) False have "(p, n) \<in> set (if z = x then [(pre, n0)] else cond_paths (pre @ [z]) x ch)
        \<or> (p, n) \<in> set (cond_paths pre x (insert_path (y # ys) c forest))"
      by simp
    then show ?thesis
    proof
      assume "(p, n) \<in> set (if z = x then [(pre, n0)] else cond_paths (pre @ [z]) x ch)"
      then show ?thesis by auto
    next
      assume "(p, n) \<in> set (cond_paths pre x (insert_path (y # ys) c forest))"
      from 3(2) [OF False this] show ?thesis by auto
    qed
  qed
qed

lemma fold_paths:
  "(p, n) \<in> set (cond_paths pre x (fold (\<lambda>(t, c) forest. insert_path t c forest) paths forest)) \<Longrightarrow>
     (\<exists>n'. (p, n') \<in> set (cond_paths pre x forest))
     \<or> (\<exists>(t, c) \<in> set paths. x \<in> set t \<and> p = pre @ takeWhile (\<lambda>y. y \<noteq> x) t)"
proof (induction paths arbitrary: forest n)
  case Nil
  then show ?case by auto
next
  case (Cons q paths)
  obtain t c where q: "q = (t, c)" by (cases q)
  from Cons.prems have "(p, n) \<in> set (cond_paths pre x
      (fold (\<lambda>(t, c) forest. insert_path t c forest) paths (insert_path t c forest)))"
    by (simp add: q)
  from Cons.IH [OF this] show ?case
  proof
    assume "\<exists>n'. (p, n') \<in> set (cond_paths pre x (insert_path t c forest))"
    then obtain n' where "(p, n') \<in> set (cond_paths pre x (insert_path t c forest))" ..
    from insert_path_paths [OF this] show ?thesis
      by (auto simp: q)
  next
    assume "\<exists>(t, c) \<in> set paths. x \<in> set t \<and> p = pre @ takeWhile (\<lambda>y. y \<noteq> x) t"
    then show ?thesis by auto
  qed
qed

lemma build_paths:
  assumes "(p, n) \<in> set (cond_paths [] x (build paths))"
  shows "\<exists>(t, c) \<in> set paths. x \<in> set t \<and> p = takeWhile (\<lambda>y. y \<noteq> x) t"
  using fold_paths [of p n "[]" x paths "[]"] assms
  by (simp add: build_def)


lemma sorted_prefix_subset:
  fixes k :: "string \<Rightarrow> 'k::linorder"
  assumes st: "sorted_wrt (\<lambda>a b. k a < k b) t"
    and xt: "x \<in> set t"
    and lt: "\<forall>z \<in> S. k z < k x"
  shows "(S \<subseteq> set (takeWhile (\<lambda>y. y \<noteq> x) t)) = (S \<subseteq> set t)"
proof
  assume "S \<subseteq> set (takeWhile (\<lambda>y. y \<noteq> x) t)"
  then show "S \<subseteq> set t"
    by (auto dest: set_takeWhileD)
next
  assume sub: "S \<subseteq> set t"
  define a where "a = takeWhile (\<lambda>y. y \<noteq> x) t"
  define d where "d = dropWhile (\<lambda>y. y \<noteq> x) t"
  have t: "t = a @ d"
    by (simp add: a_def d_def)
  from xt have "d \<noteq> []"
    by (auto simp: d_def dropWhile_eq_Nil_conv)
  then have "hd d = x"
    using hd_dropWhile [of "\<lambda>y. y \<noteq> x" t] by (simp add: d_def)
  with \<open>d \<noteq> []\<close> obtain r where d: "d = x # r"
    by (cases d) auto
  from st have sd: "sorted_wrt (\<lambda>a b. k a < k b) (x # r)"
    unfolding t d by (simp add: sorted_wrt_append)
  show "S \<subseteq> set (takeWhile (\<lambda>y. y \<noteq> x) t)"
  proof
    fix z assume zS: "z \<in> S"
    with lt have zx: "k z < k x" by blast
    from zS sub have "z \<in> set a \<or> z = x \<or> z \<in> set r"
      unfolding t d by auto
    moreover have "z \<noteq> x" using zx by auto
    moreover have "z \<notin> set r"
    proof
      assume "z \<in> set r"
      with sd have "k x < k z" by simp
      with zx show False by simp
    qed
    ultimately show "z \<in> set (takeWhile (\<lambda>y. y \<noteq> x) t)"
      by (simp add: a_def)
  qed
qed

lemma cond_count:
  fixes k :: "string \<Rightarrow> 'k::linorder"
  assumes sp: "\<forall>(t, c) \<in> set paths. sorted_wrt (\<lambda>a b. k a < k b) t"
    and lt: "\<forall>z \<in> S. k z < k x"
  shows "wcount (cond_paths [] x (build paths)) S = wcount paths (insert x S)"
proof -
  have "sum_list (map (\<lambda>(t, c). if x \<in> set t \<and> S \<subseteq> set (takeWhile (\<lambda>y. y \<noteq> x) t)
                                 then c else 0) ps) = wcount ps (insert x S)"
    if "\<forall>(t, c) \<in> set ps. sorted_wrt (\<lambda>a b. k a < k b) t" for ps
    using that
  proof (induction ps)
    case Nil
    then show ?case by simp
  next
    case (Cons p ps)
    obtain t c where p: "p = (t, c)" by (cases p)
    from Cons.prems p have st: "sorted_wrt (\<lambda>a b. k a < k b) t" by simp
    have "(x \<in> set t \<and> S \<subseteq> set (takeWhile (\<lambda>y. y \<noteq> x) t)) = (insert x S \<subseteq> set t)"
      using sorted_prefix_subset [OF st _ lt] by auto
    with Cons show ?case by (simp add: p)
  qed
  with sp show ?thesis by (simp add: cond_paths_build)
qed

lemma cond_paths_sorted:
  fixes k :: "string \<Rightarrow> 'k::linorder"
  assumes sp: "\<forall>(t, c) \<in> set paths. sorted_wrt (\<lambda>a b. k a < k b) t"
  shows "\<forall>(p, n) \<in> set (cond_paths [] x (build paths)). sorted_wrt (\<lambda>a b. k a < k b) p"
proof (clarify)
  fix p n assume "(p, n) \<in> set (cond_paths [] x (build paths))"
  from build_paths [OF this] obtain t c where tc: "(t, c) \<in> set paths"
      and p: "p = takeWhile (\<lambda>y. y \<noteq> x) t"
    by auto
  from sp tc have "sorted_wrt (\<lambda>a b. k a < k b) t" by auto
  then have "sorted_wrt (\<lambda>a b. k a < k b) (take (length p) t)"
    by (rule sorted_wrt_take)
  moreover have "take (length p) t = p"
    unfolding p by (rule takeWhile_eq_take [symmetric])
  ultimately show "sorted_wrt (\<lambda>a b. k a < k b) p" by simp
qed

lemma mine_spec:
  fixes k :: "string \<Rightarrow> 'k::linorder"
  assumes "sorted_wrt (\<lambda>a b. k b < k a) items"
    and "\<forall>(t, c) \<in> set paths. sorted_wrt (\<lambda>a b. k a < k b) t"
  shows "(\<lambda>(l, c). (set l, c)) ` set (mine N ms items suffix (build paths))
     = {(S \<union> set suffix, wcount paths S) | S.
          S \<noteq> {} \<and> S \<subseteq> set items \<and> frequent N ms (wcount paths S)}"
  using assms
proof (induction items arbitrary: suffix paths)
  case Nil
  then show ?case by auto
next
  case (Cons x rest)
  let ?img = "\<lambda>R. (\<lambda>(l, c). (set l, c)) ` set R"
  define Wx where "Wx = cond_paths [] x (build paths)"
  define c where "c = item_count x (build paths)"
  from Cons.prems(1) have lt: "\<forall>z \<in> set rest. k z < k x"
      and sr: "sorted_wrt (\<lambda>a b. k b < k a) rest"
    by simp_all
  have c: "c = wcount paths {x}"
    unfolding c_def item_count_wcount
    by (rule cond_count [OF Cons.prems(2)]) simp
  have sWx: "\<forall>(p, n) \<in> set Wx. sorted_wrt (\<lambda>a b. k a < k b) p"
    unfolding Wx_def by (rule cond_paths_sorted [OF Cons.prems(2)])
  have cnt: "wcount Wx S = wcount paths (insert x S)" if "S \<subseteq> set rest" for S
    unfolding Wx_def using that lt by (intro cond_count [OF Cons.prems(2)]) auto
  have A1: "?img (mine N ms rest (x # suffix) (build Wx))
     = {(insert x S \<union> set suffix, wcount paths (insert x S)) | S.
          S \<noteq> {} \<and> S \<subseteq> set rest \<and> frequent N ms (wcount paths (insert x S))}"
  proof -
    have "?img (mine N ms rest (x # suffix) (build Wx))
      = {(S \<union> set (x # suffix), wcount Wx S) | S.
          S \<noteq> {} \<and> S \<subseteq> set rest \<and> frequent N ms (wcount Wx S)}"
      by (rule Cons.IH [OF sr sWx])
    also have "\<dots> = {(insert x S \<union> set suffix, wcount paths (insert x S)) | S.
          S \<noteq> {} \<and> S \<subseteq> set rest \<and> frequent N ms (wcount paths (insert x S))}"
      using cnt by auto
    finally show ?thesis .
  qed
  have A2: "?img (mine N ms rest suffix (build paths))
     = {(S \<union> set suffix, wcount paths S) | S.
          S \<noteq> {} \<and> S \<subseteq> set rest \<and> frequent N ms (wcount paths S)}"
    by (rule Cons.IH [OF sr Cons.prems(2)])
  have unf: "?img (mine N ms (x # rest) suffix (build paths))
     = (if frequent N ms c
        then insert (insert x (set suffix), c) (?img (mine N ms rest (x # suffix) (build Wx)))
        else {})
       \<union> ?img (mine N ms rest suffix (build paths))"
  proof -
    have m: "mine N ms (x # rest) suffix (build paths)
      = (if frequent N ms c then (x # suffix, c) # mine N ms rest (x # suffix) (build Wx) else [])
        @ mine N ms rest suffix (build paths)"
      by (simp add: Let_def c_def Wx_def)
    show ?thesis
    proof (cases "frequent N ms c")
      case True
      then show ?thesis
        unfolding m by (simp only: if_True set_append list.set image_Un image_insert prod.case list.simps)
    next
      case False
      then show ?thesis
        unfolding m by (simp only: if_False set_append list.set image_Un image_empty append_Nil Un_empty_left)
    qed
  qed
  show ?case
  proof (rule set_eqI, rule iffI)
    fix e
    assume "e \<in> ?img (mine N ms (x # rest) suffix (build paths))"
    then have mem: "e \<in> (if frequent N ms c
        then insert (insert x (set suffix), c) (?img (mine N ms rest (x # suffix) (build Wx)))
        else {})
       \<union> ?img (mine N ms rest suffix (build paths))"
      unfolding unf .
    let ?T = "{(S \<union> set suffix, wcount paths S) | S.
          S \<noteq> {} \<and> S \<subseteq> set (x # rest) \<and> frequent N ms (wcount paths S)}"
    have single: "e \<in> ?T" if "frequent N ms c" "e = (insert x (set suffix), c)"
    proof -
      from that have "e = ({x} \<union> set suffix, wcount paths {x})
          \<and> {x} \<noteq> {} \<and> {x} \<subseteq> set (x # rest) \<and> frequent N ms (wcount paths {x})"
        by (simp add: c)
      then show ?thesis by blast
    qed
    have ext: "e \<in> ?T" if "e \<in> ?img (mine N ms rest (x # suffix) (build Wx))"
    proof -
      from that obtain S where "e = (insert x S \<union> set suffix, wcount paths (insert x S))"
          "S \<subseteq> set rest" "frequent N ms (wcount paths (insert x S))"
        unfolding A1 by blast
      then have "e = (insert x S \<union> set suffix, wcount paths (insert x S))
          \<and> insert x S \<noteq> {} \<and> insert x S \<subseteq> set (x # rest)
          \<and> frequent N ms (wcount paths (insert x S))"
        by auto
      then show ?thesis by blast
    qed
    have old: "e \<in> ?T" if "e \<in> ?img (mine N ms rest suffix (build paths))"
    proof -
      from that obtain S where "e = (S \<union> set suffix, wcount paths S)"
          "S \<noteq> {}" "S \<subseteq> set rest" "frequent N ms (wcount paths S)"
        unfolding A2 by blast
      then have "e = (S \<union> set suffix, wcount paths S)
          \<and> S \<noteq> {} \<and> S \<subseteq> set (x # rest) \<and> frequent N ms (wcount paths S)"
        by auto
      then show ?thesis by blast
    qed
    show "e \<in> ?T"
    proof (cases "frequent N ms c")
      case True
      with mem have "e = (insert x (set suffix), c)
          \<or> e \<in> ?img (mine N ms rest (x # suffix) (build Wx))
          \<or> e \<in> ?img (mine N ms rest suffix (build paths))"
        by (simp only: if_True) blast
      with True single ext old show ?thesis by blast
    next
      case False
      with mem have "e \<in> ?img (mine N ms rest suffix (build paths))"
        by (simp only: if_False) blast
      with old show ?thesis by blast
    qed
  next
    fix e
    assume "e \<in> {(S \<union> set suffix, wcount paths S) | S.
          S \<noteq> {} \<and> S \<subseteq> set (x # rest) \<and> frequent N ms (wcount paths S)}"
    then obtain S where e: "e = (S \<union> set suffix, wcount paths S)"
        and ne: "S \<noteq> {}" and sub: "S \<subseteq> set (x # rest)"
        and fr: "frequent N ms (wcount paths S)"
      by blast
    show "e \<in> ?img (mine N ms (x # rest) suffix (build paths))"
    proof (cases "x \<in> S")
      case True
      define S' where "S' = S - {x}"
      have S: "S = insert x S'" using True by (auto simp: S'_def)
      have sub': "S' \<subseteq> set rest" using sub by (auto simp: S'_def)
      have "wcount paths S \<le> wcount paths {x}"
        by (rule wcount_antimono) (use True in simp)
      with fr have frc: "frequent N ms c"
        unfolding c by (rule frequent_mono)
      show ?thesis
      proof (cases "S' = {}")
        case True
        with S have "S = {x}" by simp
        with e frc show ?thesis
          unfolding unf by (simp add: c)
      next
        case False
        with sub' fr have "e \<in> {(insert x S \<union> set suffix, wcount paths (insert x S)) | S.
          S \<noteq> {} \<and> S \<subseteq> set rest \<and> frequent N ms (wcount paths (insert x S))}"
          unfolding e S by blast
        with frc show ?thesis
          unfolding unf A1 [symmetric] by simp
      qed
    next
      case False
      with sub have "S \<subseteq> set rest" by auto
      with ne fr have "e \<in> {(S \<union> set suffix, wcount paths S) | S.
          S \<noteq> {} \<and> S \<subseteq> set rest \<and> frequent N ms (wcount paths S)}"
        unfolding e by blast
      then show ?thesis
        unfolding unf A2 [symmetric] by simp
    qed
  qed
qed

lemma supp_count:
  "supp D s = of_nat (length (filter (\<lambda>t. set s \<subseteq> set t) D)) / of_nat (length D)"
  by (simp add: supp_def contains_all_iff)

lemma occurrences_count: "occurrences D i = length (filter (\<lambda>t. {i} \<subseteq> set t) D)"
  by (simp add: occurrences_def)

lemma count_antimono:
  "S \<subseteq> S' \<Longrightarrow> length (filter (\<lambda>t. S' \<subseteq> set t) D) \<le> length (filter (\<lambda>t. S \<subseteq> set t) D)"
  by (induction D) auto

lemma wcount_unit_paths:
  assumes "S \<subseteq> set order"
  shows "wcount (map (\<lambda>t. (filter (\<lambda>i. i \<in> set t) order, 1)) D) S
           = length (filter (\<lambda>t. S \<subseteq> set t) D)"
proof (induction D)
  case Nil
  then show ?case by simp
next
  case (Cons t D)
  have "(S \<subseteq> set (filter (\<lambda>i. i \<in> set t) order)) = (S \<subseteq> set t)"
    using assms by auto
  with Cons show ?case by simp
qed

lemma support_order_sorted:
  assumes "distinct items"
  shows "sorted_wrt (\<lambda>a b. (- int (occurrences D a), a) < (- int (occurrences D b), b))
           (support_order D items)"
proof -
  let ?k = "\<lambda>i. (- int (occurrences D i), i)"
  have "sorted (map ?k (support_order D items))"
    unfolding support_order_def by (rule sorted_sort_key)
  moreover have "distinct (map ?k (support_order D items))"
  proof -
    have "inj_on ?k (set (support_order D items))"
      by (rule inj_onI) simp
    moreover have "distinct (support_order D items)"
      using assms by (simp add: support_order_def)
    ultimately show ?thesis by (simp add: distinct_map)
  qed
  ultimately have "sorted_wrt (<) (map ?k (support_order D items))"
    by (simp add: strict_sorted_iff)
  then show ?thesis
    by (simp add: sorted_wrt_map)
qed

lemma set_support_order [simp]: "set (support_order D items) = set items"
  by (simp add: support_order_def)

text \<open>
  C1: for every one-hot matrix with distinct column labels and at least one row, and every
  minimum support, the miner returns, and what it returns is set-equal to the brute-force
  enumeration: the non-empty subsets of the item universe whose support (the fraction of
  transactions containing all items of the subset) is at least the minimum support, each
  paired with its support. The comparison is \<open>\<ge>\<close>: itemsets exactly at the threshold are
  included.
\<close>

theorem fpgrowth_exact:
  assumes dc: "distinct (oh_columns oh)"
    and ne: "oh_rows oh \<noteq> []"
  shows "\<exists>res. fpgrowth_spec oh min_support = Inr res
           \<and> (\<lambda>r. (set (fi_itemsets r), fi_support r)) ` set res
             = (\<lambda>r. (set (fi_itemsets r), fi_support r)) ` set (brute_force oh min_support)"
proof -
  define D where "D = decode oh"
  define N where "N = length D"
  define items where "items = filter (\<lambda>i. frequent N min_support (occurrences D i)) (oh_columns oh)"
  define order where "order = support_order D items"
  define paths where "paths = map (\<lambda>t. (filter (\<lambda>i. i \<in> set t) order, 1::nat)) D"
  define M where "M = mine N min_support (rev order) [] (build paths)"
  define cnt where "cnt = (\<lambda>S. length (filter (\<lambda>t. S \<subseteq> set t) D))"
  let ?k = "\<lambda>i. (- int (occurrences D i), i)"
  let ?pr = "\<lambda>r. (set (fi_itemsets r), fi_support r)"
  let ?res = "map (\<lambda>(s, c). \<lparr>fi_support = of_nat c / of_nat N, fi_itemsets = s\<rparr>) M"
  from ne have N0: "N \<noteq> 0"
    by (simp add: N_def D_def decode_def)
  have run: "fpgrowth_spec oh min_support = Inr ?res"
    using N0 unfolding fpgrowth_spec_def Let_def M_def paths_def order_def items_def N_def D_def
    by simp
  have so: "sorted_wrt (\<lambda>a b. ?k a < ?k b) order"
    unfolding order_def by (rule support_order_sorted) (simp add: items_def dc)
  then have sr: "sorted_wrt (\<lambda>a b. ?k b < ?k a) (rev order)"
    by (simp add: sorted_wrt_rev)
  have sp: "\<forall>(t, c) \<in> set paths. sorted_wrt (\<lambda>a b. ?k a < ?k b) t"
    unfolding paths_def using so by (auto intro: sorted_wrt_filter)
  have img: "(\<lambda>(l, c). (set l, c)) ` set M
      = {(S \<union> set [], wcount paths S) | S.
           S \<noteq> {} \<and> S \<subseteq> set (rev order) \<and> frequent N min_support (wcount paths S)}"
    unfolding M_def by (rule mine_spec [OF sr sp])
  have wc: "wcount paths S = cnt S" if "S \<subseteq> set order" for S
    unfolding paths_def cnt_def by (rule wcount_unit_paths [OF that])
  have img': "(\<lambda>(l, c). (set l, c)) ` set M
      = {(S, cnt S) | S. S \<noteq> {} \<and> S \<subseteq> set order \<and> frequent N min_support (cnt S)}"
    unfolding img using wc by auto
  have so_set: "set order = {i \<in> set (oh_columns oh). frequent N min_support (cnt {i})}"
    by (auto simp: order_def items_def cnt_def occurrences_count)
  have sup: "supp D s = of_nat (cnt (set s)) / of_nat N" for s
    by (simp add: supp_count cnt_def N_def)
  have lhs: "?pr ` set ?res = (\<lambda>(S, c). (S, (of_nat c :: rat) / of_nat N)) ` ((\<lambda>(l, c). (set l, c)) ` set M)"
    by (force simp: image_iff)
  have rhs: "?pr ` set (brute_force oh min_support)
      = {(set s, supp D s) | s. s \<in> set (subseqs (oh_columns oh)) \<and> s \<noteq> [] \<and> min_support \<le> supp D s}"
    unfolding brute_force_def Let_def D_def [symmetric] by (auto simp: image_iff)
  have eq: "(\<lambda>(S, c). (S, (of_nat c :: rat) / of_nat N)) `
        {(S, cnt S) | S. S \<noteq> {} \<and> S \<subseteq> set order \<and> frequent N min_support (cnt S)}
      = {(set s, supp D s) | s. s \<in> set (subseqs (oh_columns oh)) \<and> s \<noteq> [] \<and> min_support \<le> supp D s}"
    (is "?A = ?B")
  proof (rule set_eqI, rule iffI)
    fix e assume "e \<in> ?A"
    then obtain S where e: "e = (S, (of_nat (cnt S) :: rat) / of_nat N)"
        and S: "S \<noteq> {}" "S \<subseteq> set order" "frequent N min_support (cnt S)"
      by auto
    from S(2) have "S \<in> Pow (set (oh_columns oh))"
      by (auto simp: so_set)
    then have "S \<in> set ` set (subseqs (oh_columns oh))"
      by (simp only: subseqs_powset)
    then obtain s where s: "s \<in> set (subseqs (oh_columns oh))" "S = set s"
      by auto
    from S(1) s(2) have "s \<noteq> []" by auto
    moreover from S(3) have "min_support \<le> supp D s"
      by (simp add: sup s(2) frequent_def)
    moreover have "e = (set s, supp D s)"
      by (simp add: e sup s(2))
    ultimately show "e \<in> ?B" using s(1) by blast
  next
    fix e assume "e \<in> ?B"
    then obtain s where e: "e = (set s, supp D s)"
        and s: "s \<in> set (subseqs (oh_columns oh))" "s \<noteq> []" "min_support \<le> supp D s"
      by auto
    from s(1) have "set s \<in> set ` set (subseqs (oh_columns oh))"
      by (rule imageI)
    then have sub: "set s \<subseteq> set (oh_columns oh)"
      by (simp add: subseqs_powset)
    from s(3) have fr: "frequent N min_support (cnt (set s))"
      by (simp add: sup frequent_def)
    have "set s \<subseteq> set order"
    proof
      fix i assume i: "i \<in> set s"
      then have "cnt (set s) \<le> cnt {i}"
        unfolding cnt_def by (intro count_antimono) simp
      with fr have "frequent N min_support (cnt {i})"
        by (rule frequent_mono)
      with i sub show "i \<in> set order"
        by (auto simp: so_set)
    qed
    moreover from s(2) have "set s \<noteq> {}" by simp
    ultimately have "(set s, cnt (set s))
        \<in> {(S, cnt S) | S. S \<noteq> {} \<and> S \<subseteq> set order \<and> frequent N min_support (cnt S)}"
      using fr by blast
    then have "(\<lambda>(S, c). (S, (of_nat c :: rat) / of_nat N)) (set s, cnt (set s)) \<in> ?A"
      by (rule imageI)
    then show "e \<in> ?A"
      by (simp add: e sup)
  qed
  from run lhs rhs eq img' show ?thesis
    by simp
qed

theorem fpgrowth_exact_witness:
  "fpgrowth_spec
     \<lparr>oh_columns = [''beer'', ''bread'', ''diaper'', ''milk''],
      oh_rows = [[False, True, False, True], [True, True, True, False], [True, False, True, True],
                 [True, True, True, True], [False, True, True, True]]\<rparr> (3/5)
   = Inr [\<lparr>fi_support = 3/5, fi_itemsets = [''beer'']\<rparr>,
          \<lparr>fi_support = 3/5, fi_itemsets = [''diaper'', ''beer'']\<rparr>,
          \<lparr>fi_support = 4/5, fi_itemsets = [''milk'']\<rparr>,
          \<lparr>fi_support = 3/5, fi_itemsets = [''diaper'', ''milk'']\<rparr>,
          \<lparr>fi_support = 3/5, fi_itemsets = [''bread'', ''milk'']\<rparr>,
          \<lparr>fi_support = 4/5, fi_itemsets = [''diaper'']\<rparr>,
          \<lparr>fi_support = 3/5, fi_itemsets = [''bread'', ''diaper'']\<rparr>,
          \<lparr>fi_support = 4/5, fi_itemsets = [''bread'']\<rparr>]
   \<and> (\<lambda>r. (set (fi_itemsets r), fi_support r)) `
       set [\<lparr>fi_support = 3/5, fi_itemsets = [''beer'']\<rparr>,
          \<lparr>fi_support = 3/5, fi_itemsets = [''diaper'', ''beer'']\<rparr>,
          \<lparr>fi_support = 4/5, fi_itemsets = [''milk'']\<rparr>,
          \<lparr>fi_support = 3/5, fi_itemsets = [''diaper'', ''milk'']\<rparr>,
          \<lparr>fi_support = 3/5, fi_itemsets = [''bread'', ''milk'']\<rparr>,
          \<lparr>fi_support = 4/5, fi_itemsets = [''diaper'']\<rparr>,
          \<lparr>fi_support = 3/5, fi_itemsets = [''bread'', ''diaper'']\<rparr>,
          \<lparr>fi_support = 4/5, fi_itemsets = [''bread'']\<rparr>]
     = (\<lambda>r. (set (fi_itemsets r), fi_support r)) `
       set (brute_force
         \<lparr>oh_columns = [''beer'', ''bread'', ''diaper'', ''milk''],
          oh_rows = [[False, True, False, True], [True, True, True, False], [True, False, True, True],
                 [True, True, True, True], [False, True, True, True]]\<rparr> (3/5))"
proof -
  let ?oh = "\<lparr>oh_columns = [''beer'', ''bread'', ''diaper'', ''milk''],
      oh_rows = [[False, True, False, True], [True, True, True, False], [True, False, True, True],
                 [True, True, True, True], [False, True, True, True]]\<rparr>"
  have d: "distinct (oh_columns ?oh)" by simp
  have n: "oh_rows ?oh \<noteq> []" by simp
  have run: "fpgrowth_spec ?oh (3/5)
   = Inr [\<lparr>fi_support = 3/5, fi_itemsets = [''beer'']\<rparr>,
          \<lparr>fi_support = 3/5, fi_itemsets = [''diaper'', ''beer'']\<rparr>,
          \<lparr>fi_support = 4/5, fi_itemsets = [''milk'']\<rparr>,
          \<lparr>fi_support = 3/5, fi_itemsets = [''diaper'', ''milk'']\<rparr>,
          \<lparr>fi_support = 3/5, fi_itemsets = [''bread'', ''milk'']\<rparr>,
          \<lparr>fi_support = 4/5, fi_itemsets = [''diaper'']\<rparr>,
          \<lparr>fi_support = 3/5, fi_itemsets = [''bread'', ''diaper'']\<rparr>,
          \<lparr>fi_support = 4/5, fi_itemsets = [''bread'']\<rparr>]"
    by code_simp
  from fpgrowth_exact [OF d n, of "3/5"] run show ?thesis
    by (simp only: sum.inject) blast
qed

end
